theory Spec2Isabelle
  imports Complex_Main "HOL-Library.Log_Nat"
begin

section \<open>JavaScript values and runtime\<close>

text \<open>
  Values that cross the transport layer are JSON-like JavaScript values. Numbers are the
  finite ones, as rationals (every finite double is one); NaN and the infinities have no
  counterpart. Strings are lists of 8-bit characters; the text this layer handles (HTTP
  methods, URL paths, header values) is ASCII, and the string operations below act on the
  ASCII range only. An object is an association list read with \<open>map_of\<close>.
\<close>

datatype jsval =
    JUndefined
  | JNull
  | JBool bool
  | JNum rat
  | JStr string
  | JArr "jsval list"
  | JObj "(string \<times> jsval) list"

datatype jstype = TUndefined | TObject | TBoolean | TNumber | TString

fun typeof :: "jsval \<Rightarrow> jstype" where
  "typeof JUndefined = TUndefined"
| "typeof JNull = TObject"
| "typeof (JBool b) = TBoolean"
| "typeof (JNum n) = TNumber"
| "typeof (JStr s) = TString"
| "typeof (JArr xs) = TObject"
| "typeof (JObj kvs) = TObject"

text \<open>Truthiness, as \<open>&&\<close>, \<open>||\<close> and \<open>if\<close> read a value.\<close>

fun truthy :: "jsval \<Rightarrow> bool" where
  "truthy JUndefined = False"
| "truthy JNull = False"
| "truthy (JBool b) = b"
| "truthy (JNum n) = (n \<noteq> 0)"
| "truthy (JStr s) = (s \<noteq> [])"
| "truthy (JArr xs) = True"
| "truthy (JObj kvs) = True"

text \<open>\<open>v == null\<close>: true of \<open>null\<close> and \<open>undefined\<close> only.\<close>

fun nullish :: "jsval \<Rightarrow> bool" where
  "nullish JUndefined = True"
| "nullish JNull = True"
| "nullish v = False"

text \<open>
  Property read \<open>v.k\<close> for the named keys this layer reads (never an index or
  \<open>length\<close>): an object gives the stored value, every other value \<open>undefined\<close>.
\<close>

fun get_prop :: "jsval \<Rightarrow> string \<Rightarrow> jsval" where
  "get_prop (JObj kvs) k = (case map_of kvs k of Some v \<Rightarrow> v | None \<Rightarrow> JUndefined)"
| "get_prop v k = JUndefined"

text \<open>\<open>k in v\<close>, asked of named keys on values whose \<open>typeof\<close> is \<open>object\<close>.\<close>

fun has_prop :: "jsval \<Rightarrow> string \<Rightarrow> bool" where
  "has_prop (JObj kvs) k = (map_of kvs k \<noteq> None)"
| "has_prop v k = False"

text \<open>The operator \<open>a ?? b\<close>.\<close>

definition nullish_or :: "jsval \<Rightarrow> jsval \<Rightarrow> jsval" where
  "nullish_or a b = (if nullish a then b else a)"

text \<open>
  A JavaScript number is an IEEE 754 double. A finite double is modelled by the rational
  it denotes, and every arithmetic operation of the source is the exact operation
  followed by \<open>fl\<close>, the rounding to the nearest double: \<open>expo x\<close> is the binary
  exponent of a positive \<open>x\<close> (\<open>2 ^ expo x \<le> x < 2 ^ (expo x + 1)\<close>), \<open>ulp x\<close> the
  spacing of the doubles around \<open>x\<close> (53 significant bits, never finer than
  \<open>2 ^ - 1074\<close>, which gives the subnormal numbers), and \<open>rne\<close> rounds to the nearest
  integer, a tie to the even one. A decimal literal such as \<open>0.8\<close> is \<open>fl (8 / 10)\<close>.
  \<open>fl\<close> has no largest exponent: a magnitude of \<open>2 ^ 1024 - 2 ^ 970\<close> or more rounds to
  an infinity in the code, and is tested for where the model can reach it.
\<close>

definition rne :: "rat \<Rightarrow> int" where
  "rne x =
     (let n = \<lfloor>x\<rfloor>; d = x - of_int n
      in if d < 1 / 2 then n else if 1 / 2 < d then n + 1 else if even n then n else n + 1)"

definition expo :: "rat \<Rightarrow> int" where
  "expo x =
     (let (a, b) = quotient_of x; k = bitlen a - bitlen b
      in if 2 powi k \<le> x then k else k - 1)"

definition mexp :: "rat \<Rightarrow> int" where
  "mexp x = max (expo x) (- 1022)"

definition ulp :: "rat \<Rightarrow> rat" where
  "ulp x = 2 powi (mexp x - 52)"

definition fl :: "rat \<Rightarrow> rat" where
  "fl x =
     (if x = 0 then 0
      else if 0 < x then of_int (rne (x / ulp x)) * ulp x
      else - (of_int (rne (- x / ulp (- x))) * ulp (- x)))"

text \<open>
  \<open>Math.round\<close> rounds to the nearest integer, halves upwards. On a double the result
  is a double again, so no rounding follows.
\<close>

definition Math_round :: "rat \<Rightarrow> rat" where
  "Math_round x = of_int \<lfloor>x + 1 / 2\<rfloor>"

text \<open>
  What the model takes from the JavaScript runtime without defining it: \<open>Number(text)\<close>
  (\<open>None\<close> when the result is not finite), \<open>Date.parse(text)\<close> (\<open>None\<close> for NaN),
  the clock \<open>Date.now()\<close>, and the rendering of a number inside a template string.
\<close>

record js_runtime =
  Number_of :: "string \<Rightarrow> rat option"
  Date_parse :: "string \<Rightarrow> rat option"
  Date_now :: rat
  String_of :: "rat \<Rightarrow> string"

text \<open>
  A runtime for evaluating the model at inputs that reach none of its members: a
  number parser and a date parser that reject every text, and a clock at 0.
\<close>

definition silent_runtime :: js_runtime where
  "silent_runtime =
     \<lparr>Number_of = (\<lambda>t. None), Date_parse = (\<lambda>t. None), Date_now = 0, String_of = (\<lambda>n. [])\<rparr>"

subsection \<open>Strings\<close>

definition is_space :: "char \<Rightarrow> bool" where
  "is_space c = (c \<in> set [CHR 0x09, CHR 0x0A, CHR 0x0B, CHR 0x0C, CHR 0x0D, CHR 0x20])"

definition trim :: "string \<Rightarrow> string" where
  "trim s = rev (dropWhile is_space (rev (dropWhile is_space s)))"

definition upper_char :: "char \<Rightarrow> char" where
  "upper_char c =
     (let n = (of_char c :: nat) in if 97 \<le> n \<and> n \<le> 122 then char_of (n - 32) else c)"

definition toUpperCase :: "string \<Rightarrow> string" where
  "toUpperCase s = map upper_char s"

definition startsWith :: "string \<Rightarrow> string \<Rightarrow> bool" where
  "startsWith s p = (take (length p) s = p)"

section \<open>Error classification (errors.ts, in src/unnamed/part_008)\<close>

datatype AppErrorCode =
    UNAUTHENTICATED
  | FORBIDDEN
  | VALIDATION
  | NOT_FOUND
  | CONFLICT
  | RATE_LIMIT
  | SERVER
  | NETWORK
  | UNKNOWN

text \<open>An optional field is an \<open>option\<close>; one handed through as it came is a \<open>jsval\<close>.\<close>

record AppError =
  code :: AppErrorCode
  httpStatus :: "rat option"
  message :: jsval
  backendType :: jsval
  recoverable :: jsval
  waitTimeMs :: "rat option"
  retryAfterMs :: "rat option"
  raw :: jsval

definition mapStatusToCode :: "rat \<Rightarrow> AppErrorCode" where
  "mapStatusToCode status =
     (if status = 401 then UNAUTHENTICATED
      else if status = 403 then FORBIDDEN
      else if status = 404 then NOT_FOUND
      else if status = 409 then CONFLICT
      else if status = 429 then RATE_LIMIT
      else if status = 400 then VALIDATION
      else if status \<ge> 500 then SERVER
      else UNKNOWN)"

definition getMessage :: "jsval \<Rightarrow> jsval \<Rightarrow> jsval" where
  "getMessage body fallback =
     nullish_or (nullish_or (get_prop body ''error'') (get_prop body ''message'')) fallback"

text \<open>
  The product \<open>value * 1000\<close> and the difference \<open>at - Date.now()\<close> are double
  operations, rounded by \<open>fl\<close>. A product beyond the double range is \<open>Infinity\<close> in the
  code, which \<open>jsval\<close> has no value for; the model holds the rounded rational there.
\<close>

definition parseDateDelta :: "js_runtime \<Rightarrow> string \<Rightarrow> rat option" where
  "parseDateDelta rt text =
     (case Date_parse rt text of
        None \<Rightarrow> None
      | Some at' \<Rightarrow>
          (let deltaMs = fl (at' - Date_now rt)
           in if deltaMs \<le> 0 then Some 0 else Some (Math_round deltaMs)))"

fun parseRetryAfterMs :: "js_runtime \<Rightarrow> jsval \<Rightarrow> rat option" where
  "parseRetryAfterMs rt (JNum v) = (if v \<ge> 0 then Some (Math_round (fl (v * 1000))) else None)"
| "parseRetryAfterMs rt (JStr s) =
     (let text = trim s in
      if text = [] then None
      else (case Number_of rt text of
              Some numeric \<Rightarrow>
                if numeric \<ge> 0 then Some (Math_round (fl (numeric * 1000)))
                else parseDateDelta rt text
            | None \<Rightarrow> parseDateDelta rt text))"
| "parseRetryAfterMs rt v = None"

text \<open>
  \<open>networkMessage\<close> is an optional string: \<open>None\<close> is \<open>undefined\<close>, and the test
  \<open>body == null && networkMessage\<close> holds of a non-empty string only.
\<close>

definition parseApiError ::
  "js_runtime \<Rightarrow> rat \<Rightarrow> jsval \<Rightarrow> string option \<Rightarrow> jsval \<Rightarrow> AppError" where
  "parseApiError rt wire body networkMessage retryAfter =
     (let retryAfterMs' = parseRetryAfterMs rt retryAfter in
      if nullish body \<and> networkMessage \<noteq> None \<and> networkMessage \<noteq> Some []
      then \<lparr>code = NETWORK, httpStatus = None, message = JStr (the networkMessage),
            backendType = JUndefined, recoverable = JUndefined, waitTimeMs = None,
            retryAfterMs = retryAfterMs', raw = JUndefined\<rparr>
      else
        (let b = (if nullish body then JObj [] else body);
             effectiveStatus =
               (case (get_prop b ''success'', get_prop b ''statusCode'') of
                  (JBool False, JNum sc) \<Rightarrow> sc
                | _ \<Rightarrow> wire)
         in \<lparr>code = mapStatusToCode effectiveStatus,
              httpStatus = Some effectiveStatus,
              message =
                getMessage b (JStr (''Request failed ('' @ String_of rt effectiveStatus @ '')'')),
              backendType = get_prop b ''type'',
              recoverable = get_prop b ''recoverable'',
              waitTimeMs = (case get_prop b ''waitTime'' of JNum w \<Rightarrow> Some w | _ \<Rightarrow> None),
              retryAfterMs = retryAfterMs',
              raw = body\<rparr>))"

definition NO_RETRY_STATUSES :: "rat list" where
  "NO_RETRY_STATUSES = [400, 401, 403, 404, 409, 429]"

text \<open>\<open>error.httpStatus && ...\<close>: an absent status and the status 0 are both falsy.\<close>

definition status_truthy :: "rat option \<Rightarrow> bool" where
  "status_truthy st = (case st of None \<Rightarrow> False | Some h \<Rightarrow> h \<noteq> 0)"

definition shouldRetry :: "AppError \<Rightarrow> bool" where
  "shouldRetry error =
     (if code error = NETWORK then True
      else if code error = SERVER \<and> status_truthy (httpStatus error) \<and> the (httpStatus error) \<ge> 500
      then True
      else if status_truthy (httpStatus error) \<and> the (httpStatus error) \<in> set NO_RETRY_STATUSES
      then False
      else False)"

section \<open>Envelope unwrapping (unwrap.ts, in src/unnamed/part_008)\<close>

definition unwrap :: "jsval \<Rightarrow> jsval" where
  "unwrap rawv =
     (if truthy rawv \<and> typeof rawv = TObject \<and> has_prop rawv ''success'' \<and>
         get_prop rawv ''success'' = JBool True \<and> has_prop rawv ''data''
      then get_prop rawv ''data''
      else rawv)"

section \<open>In-flight keys (src/core/api/inFlight.ts)\<close>

text \<open>\<open>s.split(c)\<close> for a one-character separator: always at least one part.\<close>

fun split_on :: "char \<Rightarrow> string \<Rightarrow> string list" where
  "split_on c [] = [[]]"
| "split_on c (x # xs) =
     (if x = c then [] # split_on c xs
      else (case split_on c xs of
              p # ps \<Rightarrow> (x # p) # ps
            | [] \<Rightarrow> [[x]]))"

text \<open>
  \<open>s.replace(/\/{2,}/g, '/')\<close>: every maximal run of two or more slashes becomes one
  slash.
\<close>

fun collapse_slashes :: "string \<Rightarrow> string" where
  "collapse_slashes (a # b # xs) =
     (if a = CHR ''/'' \<and> b = CHR ''/'' then collapse_slashes (b # xs)
      else a # collapse_slashes (b # xs))"
| "collapse_slashes xs = xs"

text \<open>\<open>s.replace(/\/+$/, '')\<close>: the slashes that end the string are removed.\<close>

definition strip_trailing_slashes :: "string \<Rightarrow> string" where
  "strip_trailing_slashes s = rev (dropWhile (\<lambda>c. c = CHR ''/'') (rev s))"

text \<open>
  The expression \<open>p.replace(/\/{2,}/g, '/').replace(/\/+$/, '') || '/'\<close>, which
  \<open>normalizePath\<close> and \<open>normalizeAbsoluteUrl\<close> both apply to the path.
\<close>

definition clean_path :: "string \<Rightarrow> string" where
  "clean_path p =
     (let q = strip_trailing_slashes (collapse_slashes p) in if q = [] then ''/'' else q)"

definition normalizePath :: "string \<Rightarrow> string" where
  "normalizePath path =
     (let trimmed = trim path in
      if trimmed = [] then ''/''
      else
        (let withLeadingSlash = (if startsWith trimmed ''/'' then trimmed else ''/'' @ trimmed);
             parts = split_on CHR ''?'' withLeadingSlash;
             rawPath = (case parts of p # rest \<Rightarrow> p | [] \<Rightarrow> []);
             rawQuery = (case parts of p # q # rest \<Rightarrow> q | _ \<Rightarrow> []);
             normalizedPath = clean_path rawPath
         in if rawQuery \<noteq> [] then normalizedPath @ ''?'' @ rawQuery else normalizedPath))"

text \<open>
  The match of \<open>/^(https?:\/\/[^/?#]+)(\/[^?#]*)?(\?[^#]*)?/i\<close>: the three groups, an
  unmatched optional group being \<open>None\<close>. Each class is matched greedily and nothing
  follows the last group, so the first attempt is the match.
\<close>

definition match_absolute :: "string \<Rightarrow> (string \<times> string option \<times> string option) option" where
  "match_absolute text =
     (let n = (if toUpperCase (take 7 text) = ''HTTP://'' then 7
               else if toUpperCase (take 8 text) = ''HTTPS://'' then 8 else 0);
          rest = drop n text;
          host = takeWhile (\<lambda>c. c \<notin> set ''/?#'') rest;
          rest1 = dropWhile (\<lambda>c. c \<notin> set ''/?#'') rest;
          g2 = (if startsWith rest1 ''/'' then Some (takeWhile (\<lambda>c. c \<notin> set ''?#'') rest1) else None);
          rest2 = (if startsWith rest1 ''/'' then dropWhile (\<lambda>c. c \<notin> set ''?#'') rest1 else rest1);
          g3 = (if startsWith rest2 ''?'' then Some (takeWhile (\<lambda>c. c \<noteq> CHR ''#'') rest2) else None)
      in if n = 0 \<or> host = [] then None else Some (take n text @ host, g2, g3))"

definition normalizeAbsoluteUrl :: "string \<Rightarrow> string" where
  "normalizeAbsoluteUrl urlText =
     (case match_absolute (trim urlText) of
        None \<Rightarrow> normalizePath urlText
      | Some (g1, g2, g3) \<Rightarrow>
          (let origin = strip_trailing_slashes g1;
               path = clean_path (case g2 of Some p \<Rightarrow> p | None \<Rightarrow> ''/'');
               query = (case g3 of Some q \<Rightarrow> q | None \<Rightarrow> [])
           in origin @ path @ query))"

definition normalizeTarget :: "string \<Rightarrow> string" where
  "normalizeTarget target =
     (let trimmed = trim target in
      if trimmed = [] then ''/''
      else if startsWith trimmed ''http://'' \<or> startsWith trimmed ''https://''
      then normalizeAbsoluteUrl trimmed
      else normalizePath trimmed)"

definition buildInFlightKey :: "string \<Rightarrow> string \<Rightarrow> string" where
  "buildInFlightKey method target = toUpperCase (trim method) @ '' '' @ normalizeTarget target"

text \<open>
  The target normalization in the words of the specification, to compare the code
  with. The segments of a path are what stands between its slashes, the empty ones
  left out; the normalized path is each segment behind a single slash, and the bare
  root \<open>/\<close> when there is no segment. So repeated slashes collapse, no slash ends
  the path, and a slash leads it.
\<close>

definition spec_segments :: "string \<Rightarrow> string list" where
  "spec_segments p = filter (\<lambda>seg. seg \<noteq> []) (split_on CHR ''/'' p)"

definition spec_path :: "string \<Rightarrow> string" where
  "spec_path p =
     (if spec_segments p = [] then ''/''
      else concat (map (\<lambda>seg. CHR ''/'' # seg) (spec_segments p)))"

text \<open>The segments, each behind its slash.\<close>

definition joined :: "string \<Rightarrow> string" where
  "joined p = concat (map (\<lambda>seg. CHR ''/'' # seg) (spec_segments p))"

text \<open>Two slashes side by side somewhere in a string.\<close>

fun has_double_slash :: "string \<Rightarrow> bool" where
  "has_double_slash (a # b # xs) = ((a = CHR ''/'' \<and> b = CHR ''/'') \<or> has_double_slash (b # xs))"
| "has_double_slash xs = False"

text \<open>
  A path with every slash dropped that stands before another slash or at the end:
  the two \<open>replace\<close> calls in one pass, for the proofs.
\<close>

fun keep_slashes :: "string \<Rightarrow> string" where
  "keep_slashes [] = []"
| "keep_slashes (x # xs) =
     (if x = CHR ''/'' \<and> (xs = [] \<or> hd xs = CHR ''/'') then keep_slashes xs
      else x # keep_slashes xs)"

section \<open>Transport client (client.ts, in src/core/api/inFlight.ts)\<close>

definition MAX_RETRIES :: nat where
  "MAX_RETRIES = 2"

definition RETRY_DELAY_MS :: nat where
  "RETRY_DELAY_MS = 1000"

definition RETRYABLE_METHODS :: "string list" where
  "RETRYABLE_METHODS = [''GET'', ''HEAD'', ''OPTIONS'']"

text \<open>
  The request configuration carries the method and the private counter
  \<open>_retryCount\<close>, which only the response interceptor writes; everything else of the
  configuration stays in the record's extension.
\<close>

record request_config =
  cfg_method :: "string option"
  cfg_retryCount :: "nat option"

text \<open>Response headers: an object with a \<open>get\<close> function, or a plain record.\<close>

datatype headers = HeadersWithGet "string \<Rightarrow> jsval" | HeadersRecord "(string \<times> jsval) list"

record response =
  resp_status :: rat
  resp_data :: jsval
  resp_headers :: "headers option"

record AxiosError =
  ax_config :: "request_config option"
  ax_response :: "response option"
  ax_code :: "string option"
  ax_message :: string

definition getRetryAfterHeader :: "response option \<Rightarrow> jsval" where
  "getRetryAfterHeader resp =
     (case resp of
        None \<Rightarrow> JUndefined
      | Some r \<Rightarrow>
          (case resp_headers r of
             None \<Rightarrow> JUndefined
           | Some (HeadersWithGet g) \<Rightarrow> g ''retry-after''
           | Some (HeadersRecord kvs) \<Rightarrow>
               nullish_or (get_prop (JObj kvs) ''retry-after'') (get_prop (JObj kvs) ''Retry-After'')))"

definition isRetryableMethod :: "string option \<Rightarrow> bool" where
  "isRetryableMethod method =
     (case method of
        None \<Rightarrow> False
      | Some m \<Rightarrow>
          (let normalizedMethod = toUpperCase (trim m) in
           if length normalizedMethod = 0 then False
           else normalizedMethod \<in> set RETRYABLE_METHODS))"

definition shouldTriggerReauth :: "string option \<Rightarrow> AppError \<Rightarrow> bool" where
  "shouldTriggerReauth method appError =
     (if code appError = UNAUTHENTICATED then True
      else if code appError = FORBIDDEN \<and> isRetryableMethod method then True
      else False)"

text \<open>\<open>error.response?.status ?? 0\<close> and \<open>error.response?.data\<close>.\<close>

definition status_of :: "AxiosError \<Rightarrow> rat" where
  "status_of err = (case ax_response err of None \<Rightarrow> 0 | Some r \<Rightarrow> resp_status r)"

definition data_of :: "AxiosError \<Rightarrow> jsval" where
  "data_of err = (case ax_response err of None \<Rightarrow> JUndefined | Some r \<Rightarrow> resp_data r)"

text \<open>\<open>error.message || 'Network error'\<close>.\<close>

definition message_or_default :: "AxiosError \<Rightarrow> string" where
  "message_or_default err = (if ax_message err = [] then ''Network error'' else ax_message err)"

text \<open>The error the interceptor builds when the failed request has no configuration.\<close>

definition fallbackError :: "js_runtime \<Rightarrow> AxiosError \<Rightarrow> AppError" where
  "fallbackError rt err =
     parseApiError rt (status_of err) (data_of err) (Some (message_or_default err))
       (getRetryAfterHeader (ax_response err))"

text \<open>The error the interceptor builds when the failed request has its configuration.\<close>

definition appErrorOf :: "js_runtime \<Rightarrow> AxiosError \<Rightarrow> AppError" where
  "appErrorOf rt err =
     (let networkMessage =
            (if ax_code err = Some ''ECONNABORTED'' then ''Request timeout''
             else message_or_default err)
      in parseApiError rt (status_of err) (data_of err)
           (if ax_response err \<noteq> None then None else Some networkMessage)
           (getRetryAfterHeader (ax_response err)))"

text \<open>
  What the rejection handler of the response interceptor does with a failed request:
  it re-issues the request with the updated configuration after a delay in
  milliseconds, or it rejects with the classified error. The second component of the
  result lists the handlers run by \<open>onUnauthorized?.()\<close>: the registered handler once,
  or nothing when the slot is empty or the call is not reached.
\<close>

datatype outcome = Retry request_config nat | Reject AppError

text \<open>\<open>config._retryCount ?? 0\<close>.\<close>

definition retries_so_far :: "request_config \<Rightarrow> nat" where
  "retries_so_far config = (case cfg_retryCount config of None \<Rightarrow> 0 | Some n \<Rightarrow> n)"

definition call_handler :: "'h option \<Rightarrow> 'h list" where
  "call_handler onUnauthorized = (case onUnauthorized of None \<Rightarrow> [] | Some h \<Rightarrow> [h])"

definition onRejected :: "js_runtime \<Rightarrow> 'h option \<Rightarrow> AxiosError \<Rightarrow> outcome \<times> 'h list" where
  "onRejected rt onUnauthorized err =
     (case ax_config err of
        None \<Rightarrow>
          (let fallback = fallbackError rt err
           in (Reject fallback,
               if code fallback = UNAUTHENTICATED then call_handler onUnauthorized else []))
      | Some config \<Rightarrow>
          (let retryCount = retries_so_far config;
               appError = appErrorOf rt err
           in if retryCount < MAX_RETRIES \<and> isRetryableMethod (cfg_method config) \<and>
                 shouldRetry appError
              then (Retry (config\<lparr>cfg_retryCount := Some (retryCount + 1)\<rparr>)
                      (RETRY_DELAY_MS * (retryCount + 1)), [])
              else (Reject appError,
                    if shouldTriggerReauth (cfg_method config) appError
                    then call_handler onUnauthorized else [])))"

text \<open>
  One request through its retries: \<open>failures\<close> are the failures of the successive
  attempts, an attempt beyond them succeeds. The retried request is issued with the
  configuration the handler updated, so the next failure carries it. The result is the
  delays waited, how the request ended, and the handlers run.
\<close>

fun request_with_retries ::
  "js_runtime \<Rightarrow> 'h option \<Rightarrow> request_config \<Rightarrow> AxiosError list \<Rightarrow>
   nat list \<times> AppError option \<times> 'h list" where
  "request_with_retries rt h config [] = ([], None, [])"
| "request_with_retries rt h config (failure # later) =
     (case onRejected rt h (failure\<lparr>ax_config := Some config\<rparr>) of
        (Retry config' d, calls) \<Rightarrow>
          (let (ds, r, cs) = request_with_retries rt h config' later in (d # ds, r, calls @ cs))
      | (Reject e, calls) \<Rightarrow> ([], Some e, calls))"

text \<open>
  The method of the failed request and the error the handler classifies it as, in
  either branch, for stating what the handler does.
\<close>

definition method_of :: "AxiosError \<Rightarrow> string option" where
  "method_of err = (case ax_config err of None \<Rightarrow> None | Some config \<Rightarrow> cfg_method config)"

definition classified :: "js_runtime \<Rightarrow> AxiosError \<Rightarrow> AppError" where
  "classified rt err = (if ax_config err = None then fallbackError rt err else appErrorOf rt err)"

section \<open>Session state (AuthContext.tsx, in src/core/auth/passkey.ts; roleStorage.ts, in src/unnamed/part_006)\<close>

datatype role = Admin | Visitor

text \<open>The type \<open>Role\<close> of the source is \<open>role option\<close>: \<open>None\<close> is \<open>null\<close>.\<close>

record AuthState =
  auth_role :: "role option"
  auth_hasValidSession :: bool
  auth_loginRequired :: bool
  auth_passwordEnabled :: "jsval option"
  auth_loading :: bool
  auth_error :: "AppError option"
  auth_waitTimeMs :: "rat option"

text \<open>
  The storage backend is a key-value store outside the source; its calls can throw.
  \<open>failing\<close> says that they do.
\<close>

record storage =
  contents :: "string \<Rightarrow> string option"
  failing :: bool

definition ROLE_KEY :: string where
  "ROLE_KEY = ''auth.role''"

definition role_of_string :: "string \<Rightarrow> role option" where
  "role_of_string t = (if t = ''admin'' then Some Admin else if t = ''visitor'' then Some Visitor else None)"

definition string_of_role :: "role \<Rightarrow> string" where
  "string_of_role r = (case r of Admin \<Rightarrow> ''admin'' | Visitor \<Rightarrow> ''visitor'')"

text \<open>\<open>getStoredRole\<close> and \<open>setStoredRole\<close>: \<open>None\<close> when the backend throws.\<close>

definition getStoredRole :: "storage \<Rightarrow> role option option" where
  "getStoredRole st =
     (if failing st then None
      else Some (case contents st ROLE_KEY of None \<Rightarrow> None | Some t \<Rightarrow> role_of_string t))"

definition setStoredRole :: "role option \<Rightarrow> storage \<Rightarrow> storage option" where
  "setStoredRole r st =
     (if failing st then None
      else (case r of
              None \<Rightarrow> Some (st\<lparr>contents := (contents st)(ROLE_KEY := None)\<rparr>)
            | Some v \<Rightarrow> Some (st\<lparr>contents := (contents st)(ROLE_KEY \<mapsto> string_of_role v)\<rparr>)))"

definition safeGetStoredRole :: "storage \<Rightarrow> role option" where
  "safeGetStoredRole st = (case getStoredRole st of None \<Rightarrow> None | Some r \<Rightarrow> r)"

definition safeSetStoredRole :: "role option \<Rightarrow> storage \<Rightarrow> storage" where
  "safeSetStoredRole r st = (case setStoredRole r st of None \<Rightarrow> st | Some st' \<Rightarrow> st')"

definition normalizeRole :: "jsval \<Rightarrow> role option" where
  "normalizeRole v = (case v of JStr t \<Rightarrow> role_of_string t | _ \<Rightarrow> None)"

definition resolveStartupRole :: "bool \<Rightarrow> bool \<Rightarrow> role option \<Rightarrow> role option" where
  "resolveStartupRole loginRequired hasValidSession probeRole =
     (if \<not> loginRequired then None
      else if hasValidSession then probeRole else None)"

text \<open>\<open>a ?? b\<close> on roles.\<close>

definition role_or :: "role option \<Rightarrow> role option \<Rightarrow> role option" where
  "role_or a b = (case a of None \<Rightarrow> b | Some r \<Rightarrow> Some r)"

definition getRoleFromSettings :: "jsval \<Rightarrow> role option" where
  "getRoleFromSettings settings =
     (if nullish settings \<or> typeof settings \<noteq> TObject then None
      else role_or (role_or (normalizeRole (get_prop settings ''role''))
                            (normalizeRole (get_prop settings ''userRole'')))
                   (normalizeRole (get_prop settings ''currentRole'')))"

text \<open>The state \<open>AuthProvider\<close> starts from: the stored role as a hint, loading.\<close>

definition initialAuthState :: "storage \<Rightarrow> AuthState" where
  "initialAuthState st =
     \<lparr>auth_role = safeGetStoredRole st, auth_hasValidSession = False,
      auth_loginRequired = False, auth_passwordEnabled = None, auth_loading = True,
      auth_error = None, auth_waitTimeMs = None\<rparr>"

definition is_auth_failure :: "AppError \<Rightarrow> bool" where
  "is_auth_failure err = (code err = UNAUTHENTICATED \<or> code err = FORBIDDEN)"

text \<open>
  \<open>refreshAuthConfig\<close>, given how its two requests end: \<open>pe\<close> is the outcome of
  \<open>getPasswordEnabled()\<close> and \<open>gs\<close> that of \<open>getSettings()\<close> (made at most once,
  in either branch), an \<open>Inl\<close> being the \<open>AppError\<close> the request rejects with. Reading a
  field of a null response throws inside the \<open>try\<close>, which leads to the \<open>catch\<close>
  branch as a rejection does; that branch never uses the error it caught. The login
  flag is read for its truthiness.
\<close>

definition refresh_main ::
  "jsval \<Rightarrow> (AppError + jsval) \<Rightarrow> AuthState \<times> storage \<Rightarrow> AuthState \<times> storage" where
  "refresh_main passwordEnabled gs ss =
     (let (s, st) = ss;
          loginRequired0 =
            truthy (nullish_or (nullish_or (get_prop passwordEnabled ''loginRequired'')
                                           (get_prop passwordEnabled ''enabled'')) (JBool False));
          probeRole0 = (if loginRequired0 then safeGetStoredRole st else None);
          (loginRequired, hasValidSession, probeError, probeRole) =
            (if loginRequired0 then
               (case gs of
                  Inr settings \<Rightarrow>
                    (loginRequired0, True, None, role_or (getRoleFromSettings settings) probeRole0)
                | Inl err \<Rightarrow>
                    if is_auth_failure err then (loginRequired0, False, None, probeRole0)
                    else (False, False, Some err, probeRole0))
             else (loginRequired0, \<not> loginRequired0, None, probeRole0));
          resolvedRole = resolveStartupRole loginRequired hasValidSession probeRole
      in (s\<lparr>auth_passwordEnabled := Some passwordEnabled,
             auth_loginRequired := loginRequired,
             auth_hasValidSession := hasValidSession,
             auth_role := resolvedRole,
             auth_loading := False,
             auth_error := probeError\<rparr>,
          safeSetStoredRole resolvedRole st))"

definition refresh_fallback ::
  "(AppError + jsval) \<Rightarrow> AuthState \<times> storage \<Rightarrow> AuthState \<times> storage" where
  "refresh_fallback gs ss =
     (let (s, st) = ss;
          (loginRequired, hasValidSession, resolvedRole, startupError) =
            (case gs of
               Inr settings \<Rightarrow> (False, True, getRoleFromSettings settings, None)
             | Inl probeErr \<Rightarrow>
                 if is_auth_failure probeErr then (True, False, None, None)
                 else (False, False, None, Some probeErr))
      in (s\<lparr>auth_role := resolvedRole,
             auth_hasValidSession := hasValidSession,
             auth_loading := False,
             auth_error := startupError,
             auth_loginRequired := loginRequired\<rparr>,
          safeSetStoredRole resolvedRole st))"

definition refreshAuthConfig ::
  "(AppError + jsval) \<Rightarrow> (AppError + jsval) \<Rightarrow> AuthState \<times> storage \<Rightarrow> AuthState \<times> storage" where
  "refreshAuthConfig pe gs ss =
     (let ss1 = (fst ss\<lparr>auth_loading := True, auth_error := None\<rparr>, snd ss)
      in case pe of
           Inr passwordEnabled \<Rightarrow>
             if nullish passwordEnabled then refresh_fallback gs ss1
             else refresh_main passwordEnabled gs ss1
         | Inl err \<Rightarrow> refresh_fallback gs ss1)"

text \<open>
  \<open>logout\<close>: \<open>try { await apiLogout() } finally { ... }\<close>. The \<open>finally\<close> block runs
  however the request ends and throws nothing itself, so the promise settles as the
  request did: rejected with its error, or fulfilled.
\<close>

definition logout ::
  "(AppError + jsval) \<Rightarrow> AuthState \<times> storage \<Rightarrow> (AppError + unit) \<times> AuthState \<times> storage" where
  "logout api ss =
     (let (s, st) = ss;
          cleared = (s\<lparr>auth_role := None, auth_hasValidSession := False,
                       auth_error := None, auth_waitTimeMs := None\<rparr>,
                     safeSetStoredRole None st)
      in (case api of Inl err \<Rightarrow> (Inl err, cleared) | Inr res \<Rightarrow> (Inr (), cleared)))"

section \<open>Polling jitter (polling.ts, in src/core/utils/duration.ts)\<close>

text \<open>
  \<open>getJitteredIntervalMs\<close> with the draw of \<open>Math.random()\<close>, a double in \<open>[0, 1)\<close>, as
  its second argument. The three operations of \<open>0.8 + Math.random() * 0.4\<close> and the
  product with the base are each rounded to a double. The result is \<open>None\<close> when the
  product overflows to \<open>Infinity\<close>, which \<open>Math.round\<close> and \<open>Math.max\<close> hand on; a
  product that overflows to \<open>-Infinity\<close> gives 1000, as every negative product does.
\<close>

definition getJitteredIntervalMs :: "rat \<Rightarrow> rat \<Rightarrow> rat option" where
  "getJitteredIntervalMs baseMs random =
     (let factor = fl (fl (8 / 10) + fl (random * fl (4 / 10)));
          product = baseMs * factor
      in if 2 ^ 1024 - 2 ^ 970 \<le> product then None
         else Some (max 1000 (Math_round (fl product))))"

section \<open>The in-flight ledger (src/core/api/inFlight.ts)\<close>

text \<open>
  Promises are named by numbers, allotted in order of creation, so that
  \<open>inFlightRequests.get(key) === request\<close> is equality of names. The promise that
  \<open>withInFlightKey\<close> creates by \<open>Promise.resolve().then(requestFactory)\<close> is first
  \<open>Scheduled\<close> (the factory waits in the microtask queue), then \<open>Running\<close> (the factory
  has been invoked and its request is pending), then \<open>Settled\<close> with the outcome every
  holder of the promise observes.
\<close>

datatype ('v, 'e) settled = Fulfilled 'v | Rejected 'e

datatype ('f, 'v, 'e) promise = Scheduled 'f | Running 'f | Settled "('v, 'e) settled"

record ('f, 'v, 'e) ledger =
  inFlightRequests :: "string \<Rightarrow> nat option"
  promises :: "nat \<Rightarrow> ('f, 'v, 'e) promise option"
  finalizers :: "nat \<Rightarrow> string option"
  nextPromise :: nat
  invoked :: "(nat \<times> 'f) list"

text \<open>
  \<open>finalizers\<close> holds the callbacks registered by \<open>request.finally\<close> that have not
  run yet, each with the key it closes over; \<open>invoked\<close> logs the factory invocations.
\<close>

definition empty_ledger :: "('f, 'v, 'e) ledger" where
  "empty_ledger =
     \<lparr>inFlightRequests = (\<lambda>k. None), promises = (\<lambda>p. None), finalizers = (\<lambda>p. None),
      nextPromise = 0, invoked = []\<rparr>"

definition withInFlightKey ::
  "string \<Rightarrow> 'f \<Rightarrow> ('f, 'v, 'e) ledger \<Rightarrow> nat \<times> ('f, 'v, 'e) ledger" where
  "withInFlightKey key requestFactory s =
     (case inFlightRequests s key of
        Some existing \<Rightarrow> (existing, s)
      | None \<Rightarrow>
          (let request = nextPromise s
           in (request,
               s\<lparr>inFlightRequests := (inFlightRequests s)(key \<mapsto> request),
                 promises := (promises s)(request \<mapsto> Scheduled requestFactory),
                 finalizers := (finalizers s)(request \<mapsto> key),
                 nextPromise := request + 1\<rparr>)))"

text \<open>The body of the callback given to \<open>request.finally\<close>.\<close>

definition finalize :: "string \<Rightarrow> nat \<Rightarrow> ('f, 'v, 'e) ledger \<Rightarrow> ('f, 'v, 'e) ledger" where
  "finalize key request s =
     (if inFlightRequests s key = Some request
      then s\<lparr>inFlightRequests := (inFlightRequests s)(key := None)\<rparr>
      else s)"

text \<open>
  What can happen, one event at a time, as on the event loop: a caller calls
  \<open>withInFlightKey\<close>; a scheduled factory is invoked; a running request settles; the
  \<open>finally\<close> callback of a settled promise runs, once. An event that cannot happen in
  the state gives \<open>None\<close>.
\<close>

datatype ('f, 'v, 'e) event =
    Call string 'f
  | Start nat
  | Settle nat "('v, 'e) settled"
  | Finally nat

fun step :: "('f, 'v, 'e) event \<Rightarrow> ('f, 'v, 'e) ledger \<Rightarrow> ('f, 'v, 'e) ledger option" where
  "step (Call key f) s = Some (snd (withInFlightKey key f s))"
| "step (Start p) s =
     (case promises s p of
        Some (Scheduled f) \<Rightarrow>
          Some (s\<lparr>promises := (promises s)(p \<mapsto> Running f), invoked := invoked s @ [(p, f)]\<rparr>)
      | _ \<Rightarrow> None)"
| "step (Settle p r) s =
     (case promises s p of
        Some (Running f) \<Rightarrow> Some (s\<lparr>promises := (promises s)(p \<mapsto> Settled r)\<rparr>)
      | _ \<Rightarrow> None)"
| "step (Finally p) s =
     (case (promises s p, finalizers s p) of
        (Some (Settled r), Some key) \<Rightarrow>
          Some ((finalize key p s)\<lparr>finalizers := (finalizers (finalize key p s))(p := None)\<rparr>)
      | _ \<Rightarrow> None)"

fun run :: "('f, 'v, 'e) event list \<Rightarrow> ('f, 'v, 'e) ledger \<Rightarrow> ('f, 'v, 'e) ledger option" where
  "run [] s = Some s"
| "run (e # es) s = (case step e s of None \<Rightarrow> None | Some s' \<Rightarrow> run es s')"

text \<open>An execution is under way for a promise that has not settled.\<close>

fun unsettled :: "('f, 'v, 'e) promise \<Rightarrow> bool" where
  "unsettled (Scheduled f) = True"
| "unsettled (Running f) = True"
| "unsettled (Settled r) = False"

definition executing :: "('f, 'v, 'e) ledger \<Rightarrow> nat \<Rightarrow> bool" where
  "executing s p = (case promises s p of None \<Rightarrow> False | Some a \<Rightarrow> unsettled a)"

text \<open>
  What holds of the ledger in every state the events lead to: promises are named below
  the next name; a key is registered to a promise exactly while the \<open>finally\<close>
  callback of that promise, which closes over the key, has not run; a promise that has
  not settled has its callback still to run; and a callback belongs to a promise.
\<close>

definition ledger_inv :: "('f, 'v, 'e) ledger \<Rightarrow> bool" where
  "ledger_inv s \<longleftrightarrow>
     (\<forall>p. promises s p \<noteq> None \<longrightarrow> p < nextPromise s) \<and>
     (\<forall>k p. (inFlightRequests s k = Some p) = (finalizers s p = Some k)) \<and>
     (\<forall>p. executing s p \<longrightarrow> finalizers s p \<noteq> None) \<and>
     (\<forall>p. finalizers s p \<noteq> None \<longrightarrow> promises s p \<noteq> None)"

section \<open>Properties of the error classifier\<close>

lemma mapStatusToCode_table:
  "mapStatusToCode 401 = UNAUTHENTICATED \<and> mapStatusToCode 403 = FORBIDDEN \<and>
   mapStatusToCode 404 = NOT_FOUND \<and> mapStatusToCode 409 = CONFLICT \<and>
   mapStatusToCode 429 = RATE_LIMIT \<and> mapStatusToCode 400 = VALIDATION"
  by (simp add: mapStatusToCode_def)

lemma mapStatusToCode_server: "500 \<le> s \<Longrightarrow> mapStatusToCode s = SERVER"
  by (simp add: mapStatusToCode_def)

lemma parseApiError_body_status:
  assumes "body = JObj kvs" "map_of kvs ''success'' = Some (JBool False)"
    "map_of kvs ''statusCode'' = Some (JNum sc)"
  shows "httpStatus (parseApiError rt wire body nm ra) = Some sc \<and>
         code (parseApiError rt wire body nm ra) = mapStatusToCode sc"
  using assms by (simp add: parseApiError_def Let_def)

lemma parseApiError_wire_status:
  assumes "\<not> (get_prop body ''success'' = JBool False \<and> (\<exists>n. get_prop body ''statusCode'' = JNum n))"
    and "\<not> (nullish body \<and> nm \<noteq> None \<and> nm \<noteq> Some [])"
  shows "httpStatus (parseApiError rt wire body nm ra) = Some wire \<and>
         code (parseApiError rt wire body nm ra) = mapStatusToCode wire"
  using assms
  by (auto simp add: parseApiError_def Let_def split: jsval.splits bool.splits)

lemma parseApiError_network:
  assumes "nullish body" "nm = Some m" "m \<noteq> []"
  shows "httpStatus (parseApiError rt wire body nm ra) = None \<and>
         code (parseApiError rt wire body nm ra) = NETWORK"
  using assms by (simp add: parseApiError_def Let_def)

text \<open>
  C1, as the code has it. A body that is an object with \<open>success === false\<close> and a
  numeric \<open>statusCode\<close> gives an error whose \<open>httpStatus\<close> is that \<open>statusCode\<close> and
  whose code is mapped from it. Every other body gives the wire status and the code
  mapped from the wire status, except in the network branch: a null or undefined body
  together with a non-empty network message gives a \<open>NETWORK\<close> error with no
  \<open>httpStatus\<close> at all. The mapping is 401 to \<open>UNAUTHENTICATED\<close>, 403 to
  \<open>FORBIDDEN\<close>, 404 to \<open>NOT_FOUND\<close>, 409 to \<open>CONFLICT\<close>, 429 to \<open>RATE_LIMIT\<close>, 400
  to \<open>VALIDATION\<close>, 500 and above to \<open>SERVER\<close>, anything else to \<open>UNKNOWN\<close>.
\<close>

theorem parseApiError_effective_status:
  "(body = JObj kvs \<and> map_of kvs ''success'' = Some (JBool False) \<and>
      map_of kvs ''statusCode'' = Some (JNum sc) \<longrightarrow>
        httpStatus (parseApiError rt wire body nm ra) = Some sc \<and>
        code (parseApiError rt wire body nm ra) = mapStatusToCode sc) \<and>
   (\<not> (get_prop body ''success'' = JBool False \<and> (\<exists>n. get_prop body ''statusCode'' = JNum n)) \<and>
      \<not> (nullish body \<and> nm \<noteq> None \<and> nm \<noteq> Some []) \<longrightarrow>
        httpStatus (parseApiError rt wire body nm ra) = Some wire \<and>
        code (parseApiError rt wire body nm ra) = mapStatusToCode wire) \<and>
   (nullish body \<and> nm = Some m \<and> m \<noteq> [] \<longrightarrow>
        httpStatus (parseApiError rt wire body nm ra) = None \<and>
        code (parseApiError rt wire body nm ra) = NETWORK) \<and>
   mapStatusToCode 401 = UNAUTHENTICATED \<and> mapStatusToCode 403 = FORBIDDEN \<and>
   mapStatusToCode 404 = NOT_FOUND \<and> mapStatusToCode 409 = CONFLICT \<and>
   mapStatusToCode 429 = RATE_LIMIT \<and> mapStatusToCode 400 = VALIDATION \<and>
   (\<forall>s. 500 \<le> s \<longrightarrow> mapStatusToCode s = SERVER) \<and>
   (\<forall>s. s < 500 \<and> s \<notin> {400, 401, 403, 404, 409, 429} \<longrightarrow> mapStatusToCode s = UNKNOWN)"
proof -
  have A: "body = JObj kvs \<and> map_of kvs ''success'' = Some (JBool False) \<and>
      map_of kvs ''statusCode'' = Some (JNum sc) \<longrightarrow>
        httpStatus (parseApiError rt wire body nm ra) = Some sc \<and>
        code (parseApiError rt wire body nm ra) = mapStatusToCode sc"
    using parseApiError_body_status [of body kvs sc rt wire nm ra]
    by (intro impI) (elim conjE, simp)
  have B: "\<not> (get_prop body ''success'' = JBool False \<and> (\<exists>n. get_prop body ''statusCode'' = JNum n)) \<and>
      \<not> (nullish body \<and> nm \<noteq> None \<and> nm \<noteq> Some []) \<longrightarrow>
        httpStatus (parseApiError rt wire body nm ra) = Some wire \<and>
        code (parseApiError rt wire body nm ra) = mapStatusToCode wire"
    using parseApiError_wire_status [of body nm rt wire ra] by fastforce
  have C: "nullish body \<and> nm = Some m \<and> m \<noteq> [] \<longrightarrow>
        httpStatus (parseApiError rt wire body nm ra) = None \<and>
        code (parseApiError rt wire body nm ra) = NETWORK"
    using parseApiError_network [of body nm m rt wire ra]
    by (intro impI) (elim conjE, simp)
  have S: "\<forall>s. 500 \<le> s \<longrightarrow> mapStatusToCode s = SERVER"
    by (simp add: mapStatusToCode_server)
  have U: "\<forall>s. s < 500 \<and> s \<notin> {400, 401, 403, 404, 409, 429} \<longrightarrow> mapStatusToCode s = UNKNOWN"
    by (simp add: mapStatusToCode_def)
  show ?thesis
    by (intro conjI A B C S U) (simp_all add: mapStatusToCode_table)
qed

text \<open>
  The theorem at the inputs of the unit tests: the login endpoint that answers HTTP 200
  with \<open>statusCode: 429\<close> in its body, a plain 409, and a timeout with no response.
\<close>

theorem parseApiError_effective_status_witness:
  "httpStatus (parseApiError silent_runtime 200
      (JObj [(''success'', JBool False), (''message'', JStr ''Too many attempts''),
             (''statusCode'', JNum 429), (''waitTime'', JNum 120000)]) None JUndefined) = Some 429 \<and>
   code (parseApiError silent_runtime 200
      (JObj [(''success'', JBool False), (''message'', JStr ''Too many attempts''),
             (''statusCode'', JNum 429), (''waitTime'', JNum 120000)]) None JUndefined) = RATE_LIMIT \<and>
   httpStatus (parseApiError silent_runtime 409
      (JObj [(''error'', JStr ''Duplicate'')]) None JUndefined) = Some 409 \<and>
   code (parseApiError silent_runtime 409
      (JObj [(''error'', JStr ''Duplicate'')]) None JUndefined) = CONFLICT \<and>
   httpStatus (parseApiError silent_runtime 0 JNull (Some ''Request timeout'') JUndefined) = None \<and>
   code (parseApiError silent_runtime 0 JNull (Some ''Request timeout'') JUndefined) = NETWORK"
  using parseApiError_effective_status
      [of "JObj [(''success'', JBool False), (''message'', JStr ''Too many attempts''),
             (''statusCode'', JNum 429), (''waitTime'', JNum 120000)]"
          "[(''success'', JBool False), (''message'', JStr ''Too many attempts''),
             (''statusCode'', JNum 429), (''waitTime'', JNum 120000)]"
          429 silent_runtime 200 None JUndefined "[]"]
    parseApiError_effective_status
      [of "JObj [(''error'', JStr ''Duplicate'')]" "[]" 0 silent_runtime 409 None JUndefined "[]"]
    parseApiError_effective_status
      [of JNull "[]" 0 silent_runtime 0 "Some ''Request timeout''" JUndefined "''Request timeout''"]
  by simp

text \<open>
  C1 as stated fails on a body that is not the failure shape: with a null body and the
  network message of a timeout, the wire status is 0 and the error carries no
  \<open>httpStatus\<close>.
\<close>

theorem parseApiError_null_body_counterexample:
  "httpStatus (parseApiError silent_runtime 0 JNull (Some ''Request timeout'') JUndefined) \<noteq> Some 0"
  by (simp add: parseApiError_def Let_def)

text \<open>
  C2, as the code has it. \<open>shouldRetry\<close> holds exactly of the errors whose code is
  \<open>NETWORK\<close>, or \<open>SERVER\<close> with an \<open>httpStatus\<close> of 500 or more. An error whose
  \<open>httpStatus\<close> is one of 400, 401, 403, 404, 409, 429 is not retried unless its code
  is \<open>NETWORK\<close>: the test of the code comes first.
\<close>

theorem shouldRetry_policy:
  "(shouldRetry e \<longleftrightarrow>
      code e = NETWORK \<or> (code e = SERVER \<and> (\<exists>h. httpStatus e = Some h \<and> 500 \<le> h))) \<and>
   ((\<exists>h. httpStatus e = Some h \<and> h \<in> {400, 401, 403, 404, 409, 429}) \<and> code e \<noteq> NETWORK \<longrightarrow>
      \<not> shouldRetry e)"
  by (auto simp: shouldRetry_def status_truthy_def split: option.splits)

theorem shouldRetry_policy_witness:
  "shouldRetry \<lparr>code = SERVER, httpStatus = Some 503, message = JStr ''down'',
      backendType = JUndefined, recoverable = JUndefined, waitTimeMs = None,
      retryAfterMs = None, raw = JUndefined\<rparr> \<and>
   \<not> shouldRetry \<lparr>code = RATE_LIMIT, httpStatus = Some 429, message = JStr ''slow down'',
      backendType = JUndefined, recoverable = JUndefined, waitTimeMs = None,
      retryAfterMs = None, raw = JUndefined\<rparr>"
  using shouldRetry_policy [of "\<lparr>code = SERVER, httpStatus = Some 503, message = JStr ''down'',
      backendType = JUndefined, recoverable = JUndefined, waitTimeMs = None,
      retryAfterMs = None, raw = JUndefined\<rparr>"]
    shouldRetry_policy [of "\<lparr>code = RATE_LIMIT, httpStatus = Some 429, message = JStr ''slow down'',
      backendType = JUndefined, recoverable = JUndefined, waitTimeMs = None,
      retryAfterMs = None, raw = JUndefined\<rparr>"]
  by simp

text \<open>
  C2 as stated fails: an error with code \<open>NETWORK\<close> and the listed status 429 is
  retried.
\<close>

theorem shouldRetry_network_429_counterexample:
  "429 \<in> set NO_RETRY_STATUSES \<and>
   shouldRetry \<lparr>code = NETWORK, httpStatus = Some 429, message = JStr ''offline'',
      backendType = JUndefined, recoverable = JUndefined, waitTimeMs = None,
      retryAfterMs = None, raw = JUndefined\<rparr>"
  by (simp add: shouldRetry_def NO_RETRY_STATUSES_def)

section \<open>Properties of the envelope unwrapper\<close>

text \<open>
  C6. \<open>unwrap\<close> returns the value under \<open>data\<close> exactly when its argument is an
  object with \<open>success === true\<close> and a \<open>data\<close> key; every other argument (a bare
  payload, an object with \<open>success === false\<close>, a payload with fields of any name) is
  returned as it came, whole.
\<close>

theorem unwrap_envelope:
  "(rawv = JObj kvs \<and> map_of kvs ''success'' = Some (JBool True) \<and> map_of kvs ''data'' = Some d \<longrightarrow>
      unwrap rawv = d) \<and>
   (\<not> (\<exists>kvs d. rawv = JObj kvs \<and> map_of kvs ''success'' = Some (JBool True) \<and>
          map_of kvs ''data'' = Some d) \<longrightarrow> unwrap rawv = rawv)"
  by (cases rawv) (auto simp: unwrap_def split: option.splits)

theorem unwrap_envelope_witness:
  "unwrap (JObj [(''success'', JBool True), (''data'', JObj [(''id'', JStr ''v2''), (''extra'', JNum 1)])])
     = JObj [(''id'', JStr ''v2''), (''extra'', JNum 1)] \<and>
   unwrap (JArr [JObj [(''id'', JStr ''v1'')]]) = JArr [JObj [(''id'', JStr ''v1'')]] \<and>
   unwrap (JObj [(''success'', JBool False), (''error'', JStr ''no'')])
     = JObj [(''success'', JBool False), (''error'', JStr ''no'')]"
  using unwrap_envelope [of "JObj [(''success'', JBool True), (''data'', JObj [(''id'', JStr ''v2''), (''extra'', JNum 1)])]"
        "[(''success'', JBool True), (''data'', JObj [(''id'', JStr ''v2''), (''extra'', JNum 1)])]"
        "JObj [(''id'', JStr ''v2''), (''extra'', JNum 1)]"]
    unwrap_envelope [of "JArr [JObj [(''id'', JStr ''v1'')]]" "[]" JNull]
    unwrap_envelope [of "JObj [(''success'', JBool False), (''error'', JStr ''no'')]" "[]" JNull]
  by simp

section \<open>Properties of the transport client\<close>

lemma isRetryableMethod_iff:
  "isRetryableMethod m \<longleftrightarrow> (\<exists>t. m = Some t \<and> toUpperCase (trim t) \<in> {''GET'', ''HEAD'', ''OPTIONS''})"
  by (auto simp: isRetryableMethod_def RETRYABLE_METHODS_def Let_def split: option.splits)

lemma shouldRetry_code: "shouldRetry e \<Longrightarrow> code e = NETWORK \<or> code e = SERVER"
  by (auto simp: shouldRetry_def split: if_splits)

lemma onRejected_no_config:
  "ax_config err = None \<Longrightarrow>
   onRejected rt h err =
     (Reject (fallbackError rt err),
      if code (fallbackError rt err) = UNAUTHENTICATED then call_handler h else [])"
  by (simp add: onRejected_def Let_def)

lemma onRejected_config:
  "ax_config err = Some config \<Longrightarrow>
   onRejected rt h err =
     (if retries_so_far config < 2 \<and> isRetryableMethod (cfg_method config) \<and>
         shouldRetry (appErrorOf rt err)
      then (Retry (config\<lparr>cfg_retryCount := Some (retries_so_far config + 1)\<rparr>)
              (1000 * (retries_so_far config + 1)), [])
      else (Reject (appErrorOf rt err),
            if shouldTriggerReauth (cfg_method config) (appErrorOf rt err)
            then call_handler h else []))"
  by (simp add: onRejected_def Let_def MAX_RETRIES_def RETRY_DELAY_MS_def)

text \<open>
  Over the retries of one request the counter only grows: the delays waited are
  1000 ms times the successive attempt numbers, and the counter never passes the
  ceiling.
\<close>

lemma retries_delays:
  "fst (request_with_retries rt h config fs) =
     map (\<lambda>i. 1000 * (i + 1))
       [retries_so_far config ..< retries_so_far config + length (fst (request_with_retries rt h config fs))] \<and>
   retries_so_far config + length (fst (request_with_retries rt h config fs))
     \<le> max 2 (retries_so_far config)"
proof (induction fs arbitrary: config)
  case Nil
  then show ?case by simp
next
  case (Cons failure later)
  let ?err = "failure\<lparr>ax_config := Some config\<rparr>"
  have cfg: "ax_config ?err = Some config" by simp
  show ?case
  proof (cases "retries_so_far config < 2 \<and> isRetryableMethod (cfg_method config) \<and>
         shouldRetry (appErrorOf rt ?err)")
    case True
    let ?config' = "config\<lparr>cfg_retryCount := Some (retries_so_far config + 1)\<rparr>"
    have n': "retries_so_far ?config' = retries_so_far config + 1"
      by (simp add: retries_so_far_def)
    have eq: "fst (request_with_retries rt h config (failure # later)) =
        (1000 * (retries_so_far config + 1)) # fst (request_with_retries rt h ?config' later)"
      using True by (simp add: onRejected_config [OF cfg] split: prod.splits)
    define n where "n = retries_so_far config"
    define ds where "ds = fst (request_with_retries rt h ?config' later)"
    from Cons.IH [of ?config'] n'
    have ih: "ds = map (\<lambda>i. 1000 * (i + 1)) [n + 1 ..< n + 1 + length ds]"
      and le: "n + 1 + length ds \<le> max 2 (n + 1)"
      by (simp_all add: n_def ds_def)
    have "[n ..< Suc (n + length ds)] = n # [Suc n ..< Suc (n + length ds)]"
      by (rule upt_conv_Cons) simp
    then have upt: "[n ..< n + length (1000 * (n + 1) # ds)] = n # [n + 1 ..< n + 1 + length ds]"
      by simp
    have "1000 * (n + 1) # ds =
        map (\<lambda>i. 1000 * (i + 1)) [n ..< n + length (1000 * (n + 1) # ds)]"
      unfolding upt using ih by simp
    moreover have "n + length (1000 * (n + 1) # ds) \<le> max 2 n"
      using le True by (simp add: n_def)
    ultimately show ?thesis
      unfolding eq by (simp add: n_def ds_def)
  next
    case False
    then have "fst (request_with_retries rt h config (failure # later)) = []"
      by (auto simp add: onRejected_config [OF cfg])
    then show ?thesis by simp
  qed
qed

lemma retries_from_start:
  assumes "cfg_retryCount config = None"
  shows "fst (request_with_retries rt h config fs) \<in> {[], [1000], [1000, 2000]}"
proof -
  let ?ds = "fst (request_with_retries rt h config fs)"
  have z: "retries_so_far config = 0" using assms by (simp add: retries_so_far_def)
  from retries_delays [of rt h config fs] z
  have a: "?ds = map (\<lambda>i. 1000 * (i + 1)) [0 ..< length ?ds]" and b: "length ?ds \<le> 2"
    by auto
  from b consider "length ?ds = 0" | "length ?ds = 1" | "length ?ds = 2" by linarith
  then show ?thesis
  proof cases
    case 1 then show ?thesis by simp
  next
    case 2 with a have "?ds = [1000]" by simp
    then show ?thesis by simp
  next
    case 3 with a have "?ds = map (\<lambda>i. 1000 * (i + 1)) [0 ..< 2]" by simp
    then have "?ds = [1000, 2000]" by (simp add: upt_rec)
    then show ?thesis by simp
  qed
qed

lemma norm_get: "toUpperCase (trim '' get '') = ''GET''"
  by code_simp

lemma norm_post: "toUpperCase (trim ''POST'') = ''POST''"
  by code_simp

text \<open>
  C3. The rejection handler re-issues a failed request exactly when the request has a
  method that, trimmed and uppercased, is \<open>GET\<close>, \<open>HEAD\<close> or \<open>OPTIONS\<close>, \<open>shouldRetry\<close>
  holds of the classified error, and the retries so far are fewer than 2. The retry
  carries the counter incremented and waits 1000 ms times the incremented counter. A
  request whose method is \<open>POST\<close>, \<open>PUT\<close>, \<open>PATCH\<close> or \<open>DELETE\<close> is rejected with the
  classified error, never retried. A request that starts without a counter is retried
  at most twice, after 1000 ms and then 2000 ms.
\<close>

theorem retry_decision:
  "((\<exists>config' d. fst (onRejected rt h err) = Retry config' d) \<longleftrightarrow>
      (\<exists>config m. ax_config err = Some config \<and> cfg_method config = Some m \<and>
         toUpperCase (trim m) \<in> {''GET'', ''HEAD'', ''OPTIONS''} \<and>
         shouldRetry (appErrorOf rt err) \<and> retries_so_far config < 2)) \<and>
   (\<forall>config' d. fst (onRejected rt h err) = Retry config' d \<longrightarrow>
      (\<exists>config. ax_config err = Some config \<and>
         config' = config\<lparr>cfg_retryCount := Some (retries_so_far config + 1)\<rparr> \<and>
         d = 1000 * (retries_so_far config + 1))) \<and>
   (\<forall>config m. ax_config err = Some config \<and> cfg_method config = Some m \<and>
        toUpperCase (trim m) \<in> {''POST'', ''PUT'', ''PATCH'', ''DELETE''} \<longrightarrow>
      fst (onRejected rt h err) = Reject (appErrorOf rt err)) \<and>
   (cfg_retryCount config0 = None \<longrightarrow>
      fst (request_with_retries rt h config0 failures) \<in> {[], [1000], [1000, 2000]})"
proof -
  have step: "((\<exists>config' d. fst (onRejected rt h err) = Retry config' d) \<longleftrightarrow>
      (\<exists>config m. ax_config err = Some config \<and> cfg_method config = Some m \<and>
         toUpperCase (trim m) \<in> {''GET'', ''HEAD'', ''OPTIONS''} \<and>
         shouldRetry (appErrorOf rt err) \<and> retries_so_far config < 2)) \<and>
   (\<forall>config' d. fst (onRejected rt h err) = Retry config' d \<longrightarrow>
      (\<exists>config. ax_config err = Some config \<and>
         config' = config\<lparr>cfg_retryCount := Some (retries_so_far config + 1)\<rparr> \<and>
         d = 1000 * (retries_so_far config + 1))) \<and>
   (\<forall>config m. ax_config err = Some config \<and> cfg_method config = Some m \<and>
        toUpperCase (trim m) \<in> {''POST'', ''PUT'', ''PATCH'', ''DELETE''} \<longrightarrow>
      fst (onRejected rt h err) = Reject (appErrorOf rt err))"
  proof (cases "ax_config err")
    case None
    then show ?thesis by (simp add: onRejected_no_config)
  next
    case (Some config)
    show ?thesis
      unfolding onRejected_config [OF Some] using Some
      by (auto simp: isRetryableMethod_iff)
  qed
  have loop: "cfg_retryCount config0 = None \<longrightarrow>
      fst (request_with_retries rt h config0 failures) \<in> {[], [1000], [1000, 2000]}"
    using retries_from_start [of config0 rt h failures] by blast
  from step loop show ?thesis by blast
qed

text \<open>
  A \<open>get\<close> answered 503 after one retry is retried once more, 2000 ms later; a
  \<open>POST\<close> answered 503 is rejected.
\<close>

theorem retry_decision_witness:
  "fst (onRejected silent_runtime (None :: unit option)
      \<lparr>ax_config = Some \<lparr>cfg_method = Some '' get '', cfg_retryCount = Some 1\<rparr>,
       ax_response = Some \<lparr>resp_status = 503, resp_data = JNull, resp_headers = None\<rparr>,
       ax_code = None, ax_message = ''Request failed with status code 503''\<rparr>)
     = Retry \<lparr>cfg_method = Some '' get '', cfg_retryCount = Some 2\<rparr> 2000 \<and>
   fst (onRejected silent_runtime (None :: unit option)
      \<lparr>ax_config = Some \<lparr>cfg_method = Some ''POST'', cfg_retryCount = None\<rparr>,
       ax_response = Some \<lparr>resp_status = 503, resp_data = JNull, resp_headers = None\<rparr>,
       ax_code = None, ax_message = ''Request failed with status code 503''\<rparr>)
     = Reject (appErrorOf silent_runtime
      \<lparr>ax_config = Some \<lparr>cfg_method = Some ''POST'', cfg_retryCount = None\<rparr>,
       ax_response = Some \<lparr>resp_status = 503, resp_data = JNull, resp_headers = None\<rparr>,
       ax_code = None, ax_message = ''Request failed with status code 503''\<rparr>)"
  using retry_decision [of silent_runtime "None :: unit option"
      "\<lparr>ax_config = Some \<lparr>cfg_method = Some '' get '', cfg_retryCount = Some 1\<rparr>,
       ax_response = Some \<lparr>resp_status = 503, resp_data = JNull, resp_headers = None\<rparr>,
       ax_code = None, ax_message = ''Request failed with status code 503''\<rparr>"
      "\<lparr>cfg_method = None, cfg_retryCount = None\<rparr>" "[]"]
    retry_decision [of silent_runtime "None :: unit option"
      "\<lparr>ax_config = Some \<lparr>cfg_method = Some ''POST'', cfg_retryCount = None\<rparr>,
       ax_response = Some \<lparr>resp_status = 503, resp_data = JNull, resp_headers = None\<rparr>,
       ax_code = None, ax_message = ''Request failed with status code 503''\<rparr>"
      "\<lparr>cfg_method = None, cfg_retryCount = None\<rparr>" "[]"]
  by (auto simp add: norm_get norm_post retries_so_far_def appErrorOf_def parseApiError_def Let_def
      status_of_def data_of_def shouldRetry_def status_truthy_def mapStatusToCode_def)

text \<open>
  C4. \<open>shouldTriggerReauth\<close> holds exactly when the error is \<open>UNAUTHENTICATED\<close>,
  whatever the method, or \<open>FORBIDDEN\<close> on a method that normalizes to \<open>GET\<close>, \<open>HEAD\<close>
  or \<open>OPTIONS\<close>; and the rejection handler runs the registered unauthorized handler,
  once, exactly when that holds of the error it classified and the method of the
  failed request. A \<open>FORBIDDEN\<close> on a write method runs nothing.
\<close>

theorem reauth_trigger:
  "(shouldTriggerReauth m e \<longleftrightarrow>
      code e = UNAUTHENTICATED \<or> (code e = FORBIDDEN \<and> isRetryableMethod m)) \<and>
   (isRetryableMethod m \<longleftrightarrow>
      (\<exists>t. m = Some t \<and> toUpperCase (trim t) \<in> {''GET'', ''HEAD'', ''OPTIONS''})) \<and>
   snd (onRejected rt (Some h) err) =
     (if code (classified rt err) = UNAUTHENTICATED \<or>
         (code (classified rt err) = FORBIDDEN \<and> isRetryableMethod (method_of err))
      then [h] else [])"
proof -
  have A: "shouldTriggerReauth m e \<longleftrightarrow>
      code e = UNAUTHENTICATED \<or> (code e = FORBIDDEN \<and> isRetryableMethod m)"
    by (simp add: shouldTriggerReauth_def)
  have C: "snd (onRejected rt (Some h) err) =
     (if code (classified rt err) = UNAUTHENTICATED \<or>
         (code (classified rt err) = FORBIDDEN \<and> isRetryableMethod (method_of err))
      then [h] else [])"
  proof (cases "ax_config err")
    case None
    then show ?thesis
      by (simp add: onRejected_no_config classified_def method_of_def call_handler_def
          isRetryableMethod_def)
  next
    case (Some config)
    show ?thesis
      unfolding onRejected_config [OF Some] using Some shouldRetry_code [of "appErrorOf rt err"]
      by (auto simp: classified_def method_of_def call_handler_def shouldTriggerReauth_def)
  qed
  show ?thesis using A C isRetryableMethod_iff [of m] by blast
qed

text \<open>
  A 403 on a \<open>POST\<close> runs no handler; the same 403 on a \<open>get\<close> runs the registered
  one.
\<close>

theorem reauth_trigger_witness:
  "snd (onRejected silent_runtime (Some (7 :: nat))
      \<lparr>ax_config = Some \<lparr>cfg_method = Some ''POST'', cfg_retryCount = None\<rparr>,
       ax_response = Some \<lparr>resp_status = 403, resp_data = JNull, resp_headers = None\<rparr>,
       ax_code = None, ax_message = ''Request failed with status code 403''\<rparr>) = [] \<and>
   snd (onRejected silent_runtime (Some (7 :: nat))
      \<lparr>ax_config = Some \<lparr>cfg_method = Some '' get '', cfg_retryCount = None\<rparr>,
       ax_response = Some \<lparr>resp_status = 403, resp_data = JNull, resp_headers = None\<rparr>,
       ax_code = None, ax_message = ''Request failed with status code 403''\<rparr>) = [7]"
  using reauth_trigger [of _ _ silent_runtime "7 :: nat"
      "\<lparr>ax_config = Some \<lparr>cfg_method = Some ''POST'', cfg_retryCount = None\<rparr>,
       ax_response = Some \<lparr>resp_status = 403, resp_data = JNull, resp_headers = None\<rparr>,
       ax_code = None, ax_message = ''Request failed with status code 403''\<rparr>"]
    reauth_trigger [of _ _ silent_runtime "7 :: nat"
      "\<lparr>ax_config = Some \<lparr>cfg_method = Some '' get '', cfg_retryCount = None\<rparr>,
       ax_response = Some \<lparr>resp_status = 403, resp_data = JNull, resp_headers = None\<rparr>,
       ax_code = None, ax_message = ''Request failed with status code 403''\<rparr>"]
  by (simp add: norm_get norm_post classified_def method_of_def appErrorOf_def parseApiError_def
      Let_def status_of_def data_of_def mapStatusToCode_def isRetryableMethod_def
      RETRYABLE_METHODS_def)

section \<open>Properties of the session controller\<close>

text \<open>
  C8. \<open>resolveStartupRole\<close> returns null whenever login is not required, whatever
  role was cached or probed; the probed role when login is required and the session is
  valid; null when login is required and the session is not valid. When
  \<open>refreshAuthConfig\<close> has its answer from the login probe and ends with login not
  required, the role of the state is null and the value it hands to the role storage
  is that null, which a working storage then reads back.
\<close>

theorem resolveStartupRole_cases:
  "resolveStartupRole False hasValidSession probeRole = None \<and>
   resolveStartupRole True True probeRole = probeRole \<and>
   resolveStartupRole True False probeRole = None \<and>
   (pe = Inr passwordEnabled \<and> \<not> nullish passwordEnabled \<and>
      \<not> auth_loginRequired (fst (refreshAuthConfig pe gs (s, st))) \<longrightarrow>
        auth_role (fst (refreshAuthConfig pe gs (s, st))) = None \<and>
        snd (refreshAuthConfig pe gs (s, st)) = safeSetStoredRole None st) \<and>
   (\<not> failing st \<longrightarrow> safeGetStoredRole (safeSetStoredRole None st) = None)"
  by (auto simp: resolveStartupRole_def refreshAuthConfig_def refresh_main_def Let_def
        safeSetStoredRole_def setStoredRole_def safeGetStoredRole_def getStoredRole_def
      split: sum.splits if_splits prod.splits)

text \<open>
  A cold start with \<open>admin\<close> in the role storage against a server that answers that
  login is not required: the state starts from the stored hint and ends with no role,
  and the storage no longer holds one.
\<close>

theorem resolveStartupRole_cases_witness:
  "auth_role (initialAuthState \<lparr>contents = [ROLE_KEY \<mapsto> ''admin''], failing = False\<rparr>) = Some Admin \<and>
   resolveStartupRole False True (Some Admin) = None \<and>
   resolveStartupRole True True (Some Admin) = Some Admin \<and>
   resolveStartupRole True False (Some Admin) = None \<and>
   auth_role (fst (refreshAuthConfig (Inr (JObj [(''enabled'', JBool False)])) (Inr JNull)
      (initialAuthState \<lparr>contents = [ROLE_KEY \<mapsto> ''admin''], failing = False\<rparr>,
       \<lparr>contents = [ROLE_KEY \<mapsto> ''admin''], failing = False\<rparr>))) = None \<and>
   safeGetStoredRole (snd (refreshAuthConfig (Inr (JObj [(''enabled'', JBool False)])) (Inr JNull)
      (initialAuthState \<lparr>contents = [ROLE_KEY \<mapsto> ''admin''], failing = False\<rparr>,
       \<lparr>contents = [ROLE_KEY \<mapsto> ''admin''], failing = False\<rparr>))) = None"
proof -
  let ?st = "\<lparr>contents = [ROLE_KEY \<mapsto> ''admin''], failing = False\<rparr>"
  let ?pe = "JObj [(''enabled'', JBool False)]"
  have off: "\<not> auth_loginRequired (fst (refreshAuthConfig (Inr ?pe) (Inr JNull) (initialAuthState ?st, ?st)))"
    by (simp add: refreshAuthConfig_def refresh_main_def Let_def nullish_or_def
        resolveStartupRole_def)
  have hint: "auth_role (initialAuthState ?st) = Some Admin"
    by (simp add: initialAuthState_def safeGetStoredRole_def getStoredRole_def role_of_string_def)
  from off hint show ?thesis
    using resolveStartupRole_cases [of True "Some Admin" "Inr ?pe" ?pe "Inr JNull"
        "initialAuthState ?st" ?st]
    by simp
qed

text \<open>
  C10. \<open>logout\<close> clears the local session whatever the remote request does: the role
  and the error become null, the session is marked not valid, the wait time becomes
  null, and the role storage is handed null. When the remote request rejects, the
  promise of \<open>logout\<close> rejects with that same error, after the clearing; when it
  fulfils, the promise fulfils.
\<close>

theorem logout_clears_and_propagates:
  "auth_role (fst (snd (logout api (s, st)))) = None \<and>
   auth_hasValidSession (fst (snd (logout api (s, st)))) = False \<and>
   auth_error (fst (snd (logout api (s, st)))) = None \<and>
   auth_waitTimeMs (fst (snd (logout api (s, st)))) = None \<and>
   snd (snd (logout api (s, st))) = safeSetStoredRole None st \<and>
   fst (logout api (s, st)) = (case api of Inl err \<Rightarrow> Inl err | Inr res \<Rightarrow> Inr ())"
  by (simp add: logout_def Let_def split: sum.splits)

section \<open>Properties of double rounding\<close>

lemma rne_floor_le: "\<lfloor>x\<rfloor> \<le> rne x"
  by (simp add: rne_def Let_def)

lemma rne_le_floor: "rne x \<le> \<lfloor>x\<rfloor> + 1"
  by (simp add: rne_def Let_def)

lemma rne_of_int: "rne (of_int n) = n"
  by (simp add: rne_def)

lemma rne_mono:
  assumes "x \<le> y"
  shows "rne x \<le> rne y"
proof (cases "\<lfloor>x\<rfloor> = \<lfloor>y\<rfloor>")
  case True
  from assms have "x - of_int \<lfloor>x\<rfloor> \<le> y - of_int \<lfloor>x\<rfloor>" by simp
  then show ?thesis unfolding rne_def Let_def True [symmetric] by auto
next
  case False
  with assms have "\<lfloor>x\<rfloor> < \<lfloor>y\<rfloor>" using floor_mono [of x y] by simp
  then have "\<lfloor>x\<rfloor> + 1 \<le> \<lfloor>y\<rfloor>" by simp
  with rne_le_floor [of x] rne_floor_le [of y] show ?thesis by linarith
qed

lemma bitlen_powi:
  assumes "0 < a"
  shows "2 powi (bitlen a - 1) \<le> (of_int a :: rat)" and "(of_int a :: rat) < 2 powi (bitlen a)"
proof -
  from bitlen_bounds [OF assms]
  have 1: "2 ^ nat (bitlen a - 1) \<le> a" and 2: "a < 2 ^ nat (bitlen a)" by simp_all
  have pos: "1 \<le> bitlen a"
    using assms bitlen_eq_zero_iff [of a] bitlen_nonneg [of a] by linarith
  have "(of_int (2 ^ nat (bitlen a - 1)) :: rat) \<le> of_int a" using 1 by (simp only: of_int_le_iff)
  then show "2 powi (bitlen a - 1) \<le> (of_int a :: rat)"
    using pos by (simp add: power_int_nonneg_exp)
  have "(of_int a :: rat) < of_int (2 ^ nat (bitlen a))" using 2 by (simp only: of_int_less_iff)
  then show "(of_int a :: rat) < 2 powi (bitlen a)"
    using pos by (simp add: power_int_nonneg_exp)
qed

lemma powi_add2: "(2 :: rat) powi m * 2 powi n = 2 powi (m + n)"
  by (simp add: power_int_add)

lemma powi_53: "(2 :: rat) powi 53 * 2 powi (m - 52) = 2 powi (m + 1)"
proof -
  have "(2 :: rat) powi 53 * 2 powi (m - 52) = 2 powi (53 + (m - 52))" by (rule powi_add2)
  also have "53 + (m - 52) = m + 1" by simp
  finally show ?thesis .
qed

lemma powi_52: "(2 :: rat) powi 52 * 2 powi (m - 52) = 2 powi m"
proof -
  have "(2 :: rat) powi 52 * 2 powi (m - 52) = 2 powi (52 + (m - 52))" by (rule powi_add2)
  also have "52 + (m - 52) = m" by simp
  finally show ?thesis .
qed

lemma expo_bounds:
  assumes "0 < x"
  shows "2 powi (expo x) \<le> x" and "x < 2 powi (expo x + 1)"
proof -
  obtain a b where q: "quotient_of x = (a, b)" by (cases "quotient_of x")
  have b: "0 < b" using quotient_of_denom_pos [OF q] .
  have x: "x = of_int a / of_int b" using quotient_of_div [OF q] .
  have a: "0 < a" using assms b x by (simp add: zero_less_divide_iff)
  define k where "k = bitlen a - bitlen b"
  define A :: rat where "A = of_int a"
  define B :: rat where "B = of_int b"
  have Bp: "0 < B" using b by (simp add: B_def)
  have Ap: "0 < A" using a by (simp add: A_def)
  note al = bitlen_powi(1) [OF a, folded A_def] and au = bitlen_powi(2) [OF a, folded A_def]
  note bl = bitlen_powi(1) [OF b, folded B_def] and bu = bitlen_powi(2) [OF b, folded B_def]
  have xAB: "x = A / B" using x by (simp add: A_def B_def)
  have "A < 2 powi (bitlen a)" by (rule au)
  also have "\<dots> = 2 powi (k + 1) * 2 powi (bitlen b - 1)"
    by (simp add: k_def power_int_add [symmetric])
  also have "\<dots> \<le> 2 powi (k + 1) * B" using bl by (intro mult_left_mono) simp_all
  finally have up: "x < 2 powi (k + 1)" using Bp by (simp add: xAB pos_divide_less_eq)
  have "2 powi (k - 1) * B \<le> 2 powi (k - 1) * 2 powi (bitlen b)"
    using bu by (intro mult_left_mono) simp_all
  also have "\<dots> = 2 powi (bitlen a - 1)" by (simp add: k_def power_int_add [symmetric])
  also have "\<dots> \<le> A" by (rule al)
  finally have lo: "2 powi (k - 1) \<le> x" using Bp by (simp add: xAB pos_le_divide_eq)
  have e: "expo x = (if 2 powi k \<le> x then k else k - 1)"
    using q by (simp add: expo_def k_def)
  show "2 powi (expo x) \<le> x" using lo by (simp add: e)
  show "x < 2 powi (expo x + 1)" using up by (auto simp: e)
qed

lemma powi_le_less_imp:
  assumes "(2 :: rat) powi m \<le> x" "x < 2 powi n"
  shows "m < n"
proof (rule ccontr)
  assume "\<not> m < n"
  then have "n \<le> m" by simp
  then have "(2 :: rat) powi n \<le> 2 powi m" by (intro power_int_increasing) simp_all
  with assms show False by simp
qed

lemma expo_unique:
  assumes "0 < x" "2 powi e \<le> x" "x < 2 powi (e + 1)"
  shows "expo x = e"
proof -
  have "expo x < e + 1" using expo_bounds(1) [OF assms(1)] assms(3) by (rule powi_le_less_imp)
  moreover have "e < expo x + 1" using assms(2) expo_bounds(2) [OF assms(1)] by (rule powi_le_less_imp)
  ultimately show ?thesis by simp
qed

lemma expo_mono:
  assumes "0 < x" "x \<le> y"
  shows "expo x \<le> expo y"
proof -
  have y: "0 < y" using assms by simp
  have "2 powi (expo x) \<le> y" using expo_bounds(1) [OF assms(1)] assms(2) by simp
  then have "expo x < expo y + 1" using expo_bounds(2) [OF y] by (rule powi_le_less_imp)
  then show ?thesis by simp
qed

lemma ulp_mexp: "ulp x = 2 powi (mexp x - 52)"
  by (simp add: ulp_def)

lemma ulp_pos: "0 < ulp x"
  by (simp add: ulp_def)

lemma below_next_binade:
  assumes "0 < x"
  shows "x < 2 powi (mexp x + 1)"
proof -
  have "x < 2 powi (expo x + 1)" using expo_bounds(2) [OF assms] .
  also have "\<dots> \<le> 2 powi (mexp x + 1)"
    by (intro power_int_increasing) (simp_all add: mexp_def)
  finally show ?thesis .
qed

lemma above_binade:
  assumes "0 < x" "- 1022 < mexp x"
  shows "2 powi (mexp x) \<le> x"
proof -
  from assms(2) have "mexp x = expo x" by (simp add: mexp_def max_def split: if_splits)
  then show ?thesis using expo_bounds(1) [OF assms(1)] by simp
qed

lemma fl_pos: "0 < x \<Longrightarrow> fl x = of_int (rne (x / ulp x)) * ulp x"
  by (simp add: fl_def)

lemma fl_neg: "x < 0 \<Longrightarrow> fl x = - fl (- x)"
  by (simp add: fl_def)

lemma fl_zero: "fl 0 = 0"
  by (simp add: fl_def)

lemma fl_nonneg:
  assumes "0 < x"
  shows "0 \<le> fl x"
proof -
  have "0 \<le> x / ulp x" using assms ulp_pos [of x] by simp
  then have "0 \<le> \<lfloor>x / ulp x\<rfloor>" by simp
  then have "0 \<le> rne (x / ulp x)" using rne_floor_le [of "x / ulp x"] by linarith
  then show ?thesis using ulp_pos [of x] by (simp add: fl_pos [OF assms])
qed

lemma fl_le_next_binade:
  assumes "0 < x"
  shows "fl x \<le> 2 powi (mexp x + 1)"
proof -
  have "x / ulp x \<le> 2 powi (mexp x + 1) / ulp x"
    using below_next_binade [OF assms] ulp_pos [of x] by (simp add: divide_right_mono)
  also have "\<dots> = 2 powi 53" unfolding ulp_mexp by (simp add: power_int_diff [symmetric])
  also have "\<dots> = of_int (2 ^ 53)" by simp
  finally have "rne (x / ulp x) \<le> rne (of_int (2 ^ 53))" by (rule rne_mono)
  then have "rne (x / ulp x) \<le> 2 ^ 53" by (simp only: rne_of_int)
  then have "(of_int (rne (x / ulp x)) :: rat) \<le> of_int (2 ^ 53)" by (simp only: of_int_le_iff)
  then have "of_int (rne (x / ulp x)) * ulp x \<le> of_int (2 ^ 53) * ulp x"
    using ulp_pos [of x] by (intro mult_right_mono) simp_all
  also have "of_int (2 ^ 53) * ulp x = 2 powi 53 * 2 powi (mexp x - 52)"
    unfolding ulp_mexp by simp
  also have "\<dots> = 2 powi (mexp x + 1)" by (rule powi_53)
  finally show ?thesis by (simp only: fl_pos [OF assms])
qed

lemma fl_ge_binade:
  assumes "0 < x" "- 1022 < mexp x"
  shows "2 powi (mexp x) \<le> fl x"
proof -
  have "2 powi (mexp x) / ulp x \<le> x / ulp x"
    using above_binade [OF assms] ulp_pos [of x] by (simp add: divide_right_mono)
  moreover have "2 powi (mexp x) / ulp x = 2 powi 52"
    unfolding ulp_mexp by (simp add: power_int_diff [symmetric])
  moreover have "(2 :: rat) powi 52 = of_int (2 ^ 52)" by simp
  ultimately have "of_int (2 ^ 52) \<le> x / ulp x" by simp
  then have "rne (of_int (2 ^ 52)) \<le> rne (x / ulp x)" by (rule rne_mono)
  then have "2 ^ 52 \<le> rne (x / ulp x)" by (simp only: rne_of_int)
  then have "(of_int (2 ^ 52) :: rat) \<le> of_int (rne (x / ulp x))" by (simp only: of_int_le_iff)
  then have "of_int (2 ^ 52) * ulp x \<le> of_int (rne (x / ulp x)) * ulp x"
    using ulp_pos [of x] by (intro mult_right_mono) simp_all
  moreover have "of_int (2 ^ 52) * ulp x = 2 powi 52 * 2 powi (mexp x - 52)"
    unfolding ulp_mexp by simp
  moreover have "(2 :: rat) powi 52 * 2 powi (mexp x - 52) = 2 powi (mexp x)"
    by (rule powi_52)
  ultimately show ?thesis by (simp only: fl_pos [OF assms(1)])
qed

lemma fl_mono_pos:
  assumes "0 < x" "x \<le> y"
  shows "fl x \<le> fl y"
proof -
  have y: "0 < y" using assms by simp
  have m: "mexp x \<le> mexp y" using expo_mono [OF assms] by (simp add: mexp_def max_def)
  show ?thesis
  proof (cases "mexp x = mexp y")
    case True
    then have u: "ulp y = ulp x" by (simp add: ulp_mexp)
    have "x / ulp x \<le> y / ulp x" using assms(2) ulp_pos [of x] by (simp add: divide_right_mono)
    then have "rne (x / ulp x) \<le> rne (y / ulp x)" by (rule rne_mono)
    then have "(of_int (rne (x / ulp x)) :: rat) \<le> of_int (rne (y / ulp x))"
      by (simp only: of_int_le_iff)
    then have "of_int (rne (x / ulp x)) * ulp x \<le> of_int (rne (y / ulp x)) * ulp x"
      using ulp_pos [of x] by (intro mult_right_mono) simp_all
    then show ?thesis by (simp only: fl_pos [OF assms(1)] fl_pos [OF y] u)
  next
    case False
    with m have lt: "mexp x + 1 \<le> mexp y" by simp
    have "- 1022 \<le> mexp x" by (simp add: mexp_def)
    with lt have big: "- 1022 < mexp y" by simp
    have "fl x \<le> 2 powi (mexp x + 1)" by (rule fl_le_next_binade [OF assms(1)])
    also have "\<dots> \<le> 2 powi (mexp y)" using lt by (intro power_int_increasing) simp_all
    also have "\<dots> \<le> fl y" by (rule fl_ge_binade [OF y big])
    finally show ?thesis .
  qed
qed

lemma fl_mono:
  assumes "x \<le> y"
  shows "fl x \<le> fl y"
proof -
  consider "0 < x" | "x = 0" "y = 0" | "x = 0" "0 < y" | "x < 0" "y < 0" | "x < 0" "y = 0" | "x < 0" "0 < y"
    using assms by force
  then show ?thesis
  proof cases
    case 1
    then show ?thesis using assms by (rule fl_mono_pos)
  next
    case 2
    then show ?thesis by simp
  next
    case 3
    then show ?thesis using fl_nonneg [of y] by (simp add: fl_zero)
  next
    case 4
    then have "0 < - y" "- y \<le> - x" using assms by simp_all
    then have "fl (- y) \<le> fl (- x)" by (rule fl_mono_pos)
    then show ?thesis using 4 by (simp add: fl_neg)
  next
    case 5
    then have "0 \<le> fl (- x)" using fl_nonneg [of "- x"] by simp
    then show ?thesis using 5 by (simp add: fl_neg fl_zero)
  next
    case 6
    then have "0 \<le> fl (- x)" using fl_nonneg [of "- x"] by simp
    moreover have "0 \<le> fl y" using 6 fl_nonneg [of y] by simp
    ultimately show ?thesis using 6 by (simp add: fl_neg)
  qed
qed


section \<open>Properties of the polling jitter\<close>

lemma Math_round_mono: "x \<le> y \<Longrightarrow> Math_round x \<le> Math_round y"
  by (simp add: Math_round_def floor_mono)

lemma Math_round_neg: "x \<le> 0 \<Longrightarrow> Math_round x \<le> 0"
  unfolding Math_round_def by (simp add: floor_le_iff)

lemma fl_nonpos: "x \<le> 0 \<Longrightarrow> fl x \<le> 0"
  using fl_mono [of x 0] by (simp add: fl_zero)

lemma double_below_one:
  assumes "0 \<le> r" "r < 1" "fl r = r"
  shows "r \<le> 1 - 1 / 2 ^ 53"
proof (rule ccontr)
  assume "\<not> r \<le> 1 - 1 / 2 ^ 53"
  then have big: "1 - 1 / 2 ^ 53 < r" by simp
  then have pos: "0 < r" by simp
  have "(2 :: rat) powi (- 1) \<le> r" using big by (simp add: power_int_minus)
  moreover have "r < 2 powi (- 1 + 1)" using assms(2) by simp
  ultimately have "expo r = - 1" by (rule expo_unique [OF pos])
  then have u: "ulp r = 1 / 2 ^ 53" by (simp add: ulp_def mexp_def power_int_minus field_simps)
  define n where "n = rne (r / ulp r)"
  have "fl r = of_int n * ulp r" by (simp only: fl_pos [OF pos] n_def)
  then have r: "r = of_int n / 2 ^ 53" using assms(3) by (simp add: u)
  then have "(of_int n :: rat) < of_int (2 ^ 53)" using assms(2) by simp
  then have "n < 2 ^ 53" by (simp only: of_int_less_iff)
  then have "n \<le> 2 ^ 53 - 1" by simp
  then have "(of_int n :: rat) \<le> of_int (2 ^ 53 - 1)" by (simp only: of_int_le_iff)
  then have "r \<le> 1 - 1 / 2 ^ 53" unfolding r by (simp add: field_simps)
  with big show False by simp
qed

lemma d08: "fl (8 / 10) = 3602879701896397 / 2 ^ 52" by code_simp
lemma d12: "fl (12 / 10) = 5404319552844595 / 2 ^ 52" by code_simp
lemma d08def: "fl (4 / 5) = 3602879701896397 / 4503599627370496" using d08 by simp
lemma d12def: "fl (6 / 5) = 5404319552844595 / 4503599627370496" using d12 by simp
lemma d04: "fl (4 / 10) = 3602879701896397 / 2 ^ 53" by code_simp

lemma factor_low: "fl (fl (8 / 10) + 0) = fl (8 / 10)" by code_simp

lemma factor_high: "fl (fl (8 / 10) + fl ((1 - 1 / 2 ^ 53) * fl (4 / 10))) = fl (12 / 10)"
  by code_simp

lemma factor_band:
  assumes "0 \<le> r" "r < 1" "fl r = r"
  shows "fl (8 / 10) \<le> fl (fl (8 / 10) + fl (r * fl (4 / 10)))"
    and "fl (fl (8 / 10) + fl (r * fl (4 / 10))) \<le> fl (12 / 10)"
proof -
  have r: "r \<le> 1 - 1 / 2 ^ 53" using assms by (rule double_below_one)
  have p: "0 \<le> fl (4 / 10)" unfolding d04 by simp
  have "0 \<le> r * fl (4 / 10)" using assms(1) p by simp
  then have "fl 0 \<le> fl (r * fl (4 / 10))" by (rule fl_mono)
  then have lo: "0 \<le> fl (r * fl (4 / 10))" by (simp only: fl_zero)
  have "r * fl (4 / 10) \<le> (1 - 1 / 2 ^ 53) * fl (4 / 10)" using r p by (rule mult_right_mono)
  then have hi: "fl (r * fl (4 / 10)) \<le> fl ((1 - 1 / 2 ^ 53) * fl (4 / 10))" by (rule fl_mono)
  have "fl (8 / 10) + 0 \<le> fl (8 / 10) + fl (r * fl (4 / 10))" using lo by simp
  then have "fl (fl (8 / 10) + 0) \<le> fl (fl (8 / 10) + fl (r * fl (4 / 10)))" by (rule fl_mono)
  then show "fl (8 / 10) \<le> fl (fl (8 / 10) + fl (r * fl (4 / 10)))" by (simp only: factor_low)
  have "fl (8 / 10) + fl (r * fl (4 / 10)) \<le> fl (8 / 10) + fl ((1 - 1 / 2 ^ 53) * fl (4 / 10))"
    using hi by simp
  then have "fl (fl (8 / 10) + fl (r * fl (4 / 10)))
      \<le> fl (fl (8 / 10) + fl ((1 - 1 / 2 ^ 53) * fl (4 / 10)))" by (rule fl_mono)
  then show "fl (fl (8 / 10) + fl (r * fl (4 / 10))) \<le> fl (12 / 10)" by (simp only: factor_high)
qed

lemma floor_result: "max 1000 (Math_round (fl p)) = 1000" if "p \<le> 0" for p
proof -
  from that have "fl p \<le> 0" by (rule fl_nonpos)
  then have "Math_round (fl p) \<le> 0" by (rule Math_round_neg)
  then show ?thesis by simp
qed

lemma no_overflow: "2 ^ 1023 * fl (12 / 10) < (2 ^ 1024 - 2 ^ 970 :: rat)"
  unfolding d12 by simp


lemma rne_close: "\<bar>of_int (rne y) - y\<bar> \<le> 1 / 2"
proof -
  have 1: "of_int \<lfloor>y\<rfloor> \<le> y" and 2: "y < of_int \<lfloor>y\<rfloor> + 1" by linarith+
  show ?thesis using 1 2 unfolding rne_def Let_def by (auto simp: abs_le_iff)
qed

lemma fl_close:
  assumes "0 < x" "2 powi (- 1022) \<le> x"
  shows "\<bar>fl x - x\<bar> \<le> x / 2 ^ 53"
proof -
  have "- 1022 < expo x + 1" using assms(2) expo_bounds(2) [OF assms(1)] by (rule powi_le_less_imp)
  then have m: "mexp x = expo x" by (simp add: mexp_def)
  have "2 powi 52 * ulp x = 2 powi (expo x)" unfolding ulp_mexp m by (rule powi_52)
  also have "\<dots> \<le> x" by (rule expo_bounds(1) [OF assms(1)])
  finally have u: "ulp x \<le> x / 2 ^ 52" by (simp add: field_simps)
  have "fl x - x = (of_int (rne (x / ulp x)) - x / ulp x) * ulp x"
    using ulp_pos [of x] by (simp add: fl_pos [OF assms(1)] field_simps)
  then have "\<bar>fl x - x\<bar> = \<bar>of_int (rne (x / ulp x)) - x / ulp x\<bar> * ulp x"
    using ulp_pos [of x] by (simp add: abs_mult)
  also have "\<dots> \<le> 1 / 2 * ulp x"
    using rne_close [of "x / ulp x"] ulp_pos [of x] by (intro mult_right_mono) simp_all
  also have "\<dots> \<le> 1 / 2 * (x / 2 ^ 52)" using u by simp
  also have "\<dots> = x / 2 ^ 53" by simp
  finally show ?thesis .
qed

lemma Math_round_near:
  assumes "\<bar>y - of_int N\<bar> < 1 / 2"
  shows "Math_round y = of_int N"
proof -
  have "\<lfloor>y + 1 / 2\<rfloor> = N" using assms by (intro floor_unique) linarith+
  then show ?thesis by (simp add: Math_round_def)
qed

lemma round_product:
  assumes B: "2 \<le> B" "B \<le> 2 ^ 50"
    and d: "1 / 2 \<le> d" "d \<le> 2" "\<bar>d - c\<bar> \<le> 1 / 2 ^ 53"
    and int: "c * B \<in> \<int>"
  shows "Math_round (fl (B * d)) = c * B"
proof -
  from int obtain N where N: "c * B = of_int N" by (auto elim: Ints_cases)
  have Bp: "0 < B" using B by simp
  have one: "1 \<le> B * d"
  proof -
    have "1 = 2 * (1 / 2 :: rat)" by simp
    also have "\<dots> \<le> B * d" using B d by (intro mult_mono) simp_all
    finally show ?thesis .
  qed
  then have pos: "0 < B * d" by simp
  have "(2 :: rat) powi (- 1022) \<le> 2 powi 0" by (intro power_int_increasing) simp_all
  then have norm: "2 powi (- 1022) \<le> B * d" using one by simp
  have e1: "\<bar>fl (B * d) - B * d\<bar> \<le> B * d / 2 ^ 53" using pos norm by (rule fl_close)
  have "B * d \<le> B * 2" using d Bp by (intro mult_left_mono) simp_all
  then have e1': "\<bar>fl (B * d) - B * d\<bar> \<le> B * 2 / 2 ^ 53" using e1 by (simp add: field_simps)
  have "B * d - c * B = B * (d - c)" by (simp add: algebra_simps)
  then have "\<bar>B * d - c * B\<bar> = \<bar>B\<bar> * \<bar>d - c\<bar>" by (simp only: abs_mult)
  also have "\<dots> = B * \<bar>d - c\<bar>" using Bp by simp
  also have "\<dots> \<le> B * (1 / 2 ^ 53)" using d Bp by (intro mult_left_mono) simp_all
  finally have e2: "\<bar>B * d - c * B\<bar> \<le> B / 2 ^ 53" by simp
  have "\<bar>fl (B * d) - c * B\<bar> \<le> \<bar>fl (B * d) - B * d\<bar> + \<bar>B * d - c * B\<bar>" by simp
  also have "\<dots> \<le> B * 2 / 2 ^ 53 + B / 2 ^ 53" using e1' e2 by (rule add_mono)
  also have "\<dots> = B * (3 / 2 ^ 53)" by simp
  also have "\<dots> \<le> 2 ^ 50 * (3 / 2 ^ 53)" using B by (intro mult_right_mono) simp_all
  also have "\<dots> < 1 / 2" by simp
  finally have "\<bar>fl (B * d) - of_int N\<bar> < 1 / 2" by (simp only: N)
  then have "Math_round (fl (B * d)) = of_int N" by (rule Math_round_near)
  then show ?thesis by (simp only: N)
qed

lemma round_low:
  assumes "2 \<le> B" "B \<le> 2 ^ 50" "8 / 10 * B \<in> \<int>"
  shows "Math_round (fl (B * fl (8 / 10))) = 8 / 10 * B"
  using assms(1,2) _ _ _ assms(3) by (rule round_product) (simp_all add: d08def)

lemma round_high:
  assumes "2 \<le> B" "B \<le> 2 ^ 50" "12 / 10 * B \<in> \<int>"
  shows "Math_round (fl (B * fl (12 / 10))) = 12 / 10 * B"
  using assms(1,2) _ _ _ assms(3) by (rule round_product) (simp_all add: d12def)

lemma jitter_band_rounded:
  assumes "0 \<le> r" "r < 1" "fl r = r" "B \<le> 2 ^ 1023"
  shows "\<exists>J. getJitteredIntervalMs B r = Some J \<and>
           1000 \<le> J \<and>
           max 1000 (Math_round (fl (B * fl (8 / 10)))) \<le> J \<and>
           J \<le> max 1000 (Math_round (fl (B * fl (12 / 10))))"
proof -
  define factor where "factor = fl (fl (8 / 10) + fl (r * fl (4 / 10)))"
  have lo: "fl (8 / 10) \<le> factor" and hi: "factor \<le> fl (12 / 10)"
    unfolding factor_def using assms(1-3) by (rule factor_band)+
  have p8: "0 < fl (8 / 10)" unfolding d08 by simp
  have p12: "0 < fl (12 / 10)" unfolding d12 by simp
  have fpos: "0 < factor" using p8 lo by simp
  define J where "J = max 1000 (Math_round (fl (B * factor)))"
  have fin: "\<not> 2 ^ 1024 - 2 ^ 970 \<le> B * factor"
  proof (cases "0 \<le> B")
    case True
    have "B * factor \<le> B * fl (12 / 10)" using hi True by (rule mult_left_mono)
    also have "\<dots> \<le> 2 ^ 1023 * fl (12 / 10)" using assms(4) p12 by (intro mult_right_mono) simp_all
    also note no_overflow
    finally show ?thesis by simp
  next
    case False
    then have "B * factor \<le> 0" using fpos by (simp add: mult_le_0_iff)
    then show ?thesis by simp
  qed
  have val: "getJitteredIntervalMs B r = Some J"
    unfolding getJitteredIntervalMs_def Let_def factor_def [symmetric] J_def using fin by simp
  have floor1: "1000 \<le> J" by (simp add: J_def)
  have band: "max 1000 (Math_round (fl (B * fl (8 / 10)))) \<le> J \<and>
      J \<le> max 1000 (Math_round (fl (B * fl (12 / 10))))"
  proof (cases "0 \<le> B")
    case True
    have "B * fl (8 / 10) \<le> B * factor" using lo True by (rule mult_left_mono)
    then have 1: "Math_round (fl (B * fl (8 / 10))) \<le> Math_round (fl (B * factor))"
      by (intro Math_round_mono fl_mono)
    have "B * factor \<le> B * fl (12 / 10)" using hi True by (rule mult_left_mono)
    then have 2: "Math_round (fl (B * factor)) \<le> Math_round (fl (B * fl (12 / 10)))"
      by (intro Math_round_mono fl_mono)
    from 1 2 show ?thesis unfolding J_def by (simp add: max.coboundedI2)
  next
    case False
    then have neg: "B < 0" by simp
    have a: "B * factor \<le> 0" using neg fpos by (simp add: mult_le_0_iff)
    have b: "B * fl (8 / 10) \<le> 0" using neg p8 by (simp add: mult_le_0_iff)
    have c: "B * fl (12 / 10) \<le> 0" using neg p12 by (simp add: mult_le_0_iff)
    show ?thesis unfolding J_def by (simp only: floor_result [OF a] floor_result [OF b] floor_result [OF c]) simp
  qed
  from val floor1 band show ?thesis by blast
qed

text \<open>
  C9, as the code has it. For a draw \<open>r\<close> of \<open>Math.random()\<close>, a double in \<open>[0, 1)\<close>, and
  a base \<open>B\<close> whose product does not overflow, the jittered interval is at least 1000
  and lies between \<open>max(1000, round(B * 0.8))\<close> and \<open>max(1000, round(B * 1.2))\<close>, the
  two products taken in double arithmetic as the code takes its own: the band is
  rounded and lifted to the floor with the value. When \<open>0.8 B\<close> and \<open>1.2 B\<close> are
  integers, \<open>1.2 B\<close> is at least 1000 and \<open>B\<close> is at most \<open>2 ^ 50\<close>, that is the band
  \<open>[max(1000, 0.8 B), 1.2 B]\<close> the specification gives.
\<close>

theorem jitter_band:
  "(0 \<le> r \<and> r < 1 \<and> fl r = r \<and> B \<le> 2 ^ 1023 \<longrightarrow>
      (\<exists>J. getJitteredIntervalMs B r = Some J \<and>
           1000 \<le> J \<and>
           max 1000 (Math_round (fl (B * fl (8 / 10)))) \<le> J \<and>
           J \<le> max 1000 (Math_round (fl (B * fl (12 / 10)))))) \<and>
   (0 \<le> r \<and> r < 1 \<and> fl r = r \<and> B \<le> 2 ^ 50 \<and>
    8 / 10 * B \<in> \<int> \<and> 12 / 10 * B \<in> \<int> \<and> 1000 \<le> 12 / 10 * B \<longrightarrow>
      (\<exists>J. getJitteredIntervalMs B r = Some J \<and>
           max 1000 (8 / 10 * B) \<le> J \<and> J \<le> 12 / 10 * B))"
proof (intro conjI impI)
  assume a: "0 \<le> r \<and> r < 1 \<and> fl r = r \<and> B \<le> 2 ^ 1023"
  from a have 1: "0 \<le> r" by (elim conjE)
  from a have 2: "r < 1" by (elim conjE)
  from a have 3: "fl r = r" by (elim conjE)
  from a have 4: "B \<le> 2 ^ 1023" by (elim conjE)
  from 1 2 3 4 show "\<exists>J. getJitteredIntervalMs B r = Some J \<and>
           1000 \<le> J \<and>
           max 1000 (Math_round (fl (B * fl (8 / 10)))) \<le> J \<and>
           J \<le> max 1000 (Math_round (fl (B * fl (12 / 10))))"
    by (rule jitter_band_rounded)
next
  assume a: "0 \<le> r \<and> r < 1 \<and> fl r = r \<and> B \<le> 2 ^ 50 \<and>
    8 / 10 * B \<in> \<int> \<and> 12 / 10 * B \<in> \<int> \<and> 1000 \<le> 12 / 10 * B"
  from a have 1: "0 \<le> r" by (elim conjE)
  from a have 2: "r < 1" by (elim conjE)
  from a have 3: "fl r = r" by (elim conjE)
  from a have b50: "B \<le> 2 ^ 50" by (elim conjE)
  from a have i8: "8 / 10 * B \<in> \<int>" by (elim conjE)
  from a have i12: "12 / 10 * B \<in> \<int>" by (elim conjE)
  from a have big: "1000 \<le> 12 / 10 * B" by (elim conjE)
  have b2: "2 \<le> B" using big by simp
  have "(2 :: rat) ^ 50 \<le> 2 ^ 1023" by (intro power_increasing) simp_all
  with b50 have 4: "B \<le> 2 ^ 1023" by (rule order_trans)
  from jitter_band_rounded [OF 1 2 3 4] obtain J where
    v: "getJitteredIntervalMs B r = Some J"
    and lo: "max 1000 (Math_round (fl (B * fl (8 / 10)))) \<le> J"
    and hi: "J \<le> max 1000 (Math_round (fl (B * fl (12 / 10))))"
    by (elim exE conjE)
  have l: "max 1000 (8 / 10 * B) \<le> J" using lo by (simp only: round_low [OF b2 b50 i8])
  have "J \<le> max 1000 (12 / 10 * B)" using hi by (simp only: round_high [OF b2 b50 i12])
  also have "\<dots> = 12 / 10 * B" using big by (simp only: max_absorb2)
  finally have h: "J \<le> 12 / 10 * B" .
  from v l h show "\<exists>J. getJitteredIntervalMs B r = Some J \<and>
           max 1000 (8 / 10 * B) \<le> J \<and> J \<le> 12 / 10 * B"
    by (intro exI [of _ J] conjI)
qed

text \<open>
  The base of the unit test, 2000 ms, with the draw one half: the interval is 2000 ms,
  within the rounded band, which here is the band \<open>[1600, 2400]\<close> of the test.
\<close>

theorem jitter_band_witness:
  "getJitteredIntervalMs 2000 (1 / 2) = Some 2000 \<and>
   max 1000 (Math_round (fl (2000 * fl (8 / 10)))) = 1600 \<and>
   max 1000 (Math_round (fl (2000 * fl (12 / 10)))) = 2400 \<and>
   (\<exists>J. getJitteredIntervalMs 2000 (1 / 2) = Some J \<and>
        1000 \<le> J \<and>
        max 1000 (Math_round (fl (2000 * fl (8 / 10)))) \<le> J \<and>
        J \<le> max 1000 (Math_round (fl (2000 * fl (12 / 10))))) \<and>
   (\<exists>J. getJitteredIntervalMs 2000 (1 / 2) = Some J \<and>
        max 1000 (8 / 10 * 2000) \<le> J \<and> J \<le> 12 / 10 * 2000)"
proof -
  have h1: "(0 :: rat) \<le> 1 / 2 \<and> (1 / 2 :: rat) < 1 \<and> fl (1 / 2) = 1 / 2 \<and> (2000 :: rat) \<le> 2 ^ 1023"
    by code_simp
  have f: "fl (1 / 2) = 1 / 2" by code_simp
  have h2: "(0 :: rat) \<le> 1 / 2 \<and> (1 / 2 :: rat) < 1 \<and> fl (1 / 2) = 1 / 2 \<and> (2000 :: rat) \<le> 2 ^ 50 \<and>
    8 / 10 * (2000 :: rat) \<in> \<int> \<and> 12 / 10 * (2000 :: rat) \<in> \<int> \<and> (1000 :: rat) \<le> 12 / 10 * 2000"
    using f by simp
  have v: "getJitteredIntervalMs 2000 (1 / 2) = Some 2000" by code_simp
  have l: "max 1000 (Math_round (fl (2000 * fl (8 / 10)))) = 1600" by code_simp
  have u: "max 1000 (Math_round (fl (2000 * fl (12 / 10)))) = 2400" by code_simp
  note t = jitter_band [of "1 / 2" 2000]
  from v l u t [THEN conjunct1, THEN mp, OF h1] t [THEN conjunct2, THEN mp, OF h2]
  show ?thesis by (intro conjI)
qed

text \<open>
  C9 as stated fails below the floor: for the base 100 ms the interval is 1000 ms,
  above \<open>1.2 B = 120\<close>.
\<close>

theorem jitter_small_base_counterexample:
  "getJitteredIntervalMs 100 0 = Some 1000 \<and> \<not> (1000 \<le> 12 / 10 * (100 :: rat))"
  by code_simp

text \<open>
  The double rounding shows in the result: for the base 1000.4166666666666 and the
  largest draw the code returns 1201, where the exact product would round to 1200.
\<close>

lemma jitter_double_rounding:
  "getJitteredIntervalMs (fl (10004166666666666 / 10 ^ 13)) (1 - 1 / 2 ^ 53) = Some 1201 \<and>
   Math_round (fl (10004166666666666 / 10 ^ 13) * (8 / 10 + (1 - 1 / 2 ^ 53) * (4 / 10))) = 1200"
  by code_simp

section \<open>Properties of the in-flight key\<close>

lemma strip_trailing_slashes_Cons:
  "strip_trailing_slashes (x # xs) =
     (if strip_trailing_slashes xs = [] \<and> x = CHR ''/'' then [] else x # strip_trailing_slashes xs)"
proof (cases "\<forall>c\<in>set xs. c = CHR ''/''")
  case True
  then have "dropWhile (\<lambda>c. c = CHR ''/'') (rev xs @ [x]) = dropWhile (\<lambda>c. c = CHR ''/'') [x]"
    by (intro dropWhile_append2) simp
  moreover from True have "dropWhile (\<lambda>c. c = CHR ''/'') (rev xs) = []"
    by (simp add: dropWhile_eq_Nil_conv)
  ultimately show ?thesis by (simp add: strip_trailing_slashes_def)
next
  case False
  then obtain c where c: "c \<in> set (rev xs)" "\<not> c = CHR ''/''" by auto
  then have "dropWhile (\<lambda>c. c = CHR ''/'') (rev xs @ [x]) = dropWhile (\<lambda>c. c = CHR ''/'') (rev xs) @ [x]"
    by (intro dropWhile_append1) 
  moreover from False have "dropWhile (\<lambda>c. c = CHR ''/'') (rev xs) \<noteq> []"
    by (simp add: dropWhile_eq_Nil_conv)
  ultimately show ?thesis by (simp add: strip_trailing_slashes_def)
qed

lemma strip_trailing_slashes_Nil [simp]: "strip_trailing_slashes [] = []"
  by (simp add: strip_trailing_slashes_def)

lemma keep_slashes_nonslash: "x \<noteq> CHR ''/'' \<Longrightarrow> keep_slashes (x # xs) \<noteq> []"
  by simp

lemma strip_collapse: "strip_trailing_slashes (collapse_slashes p) = keep_slashes p"
proof (induction p rule: collapse_slashes.induct)
  case (1 a b xs)
  show ?case
  proof (cases "a = CHR ''/'' \<and> b = CHR ''/''")
    case True
    with 1 show ?thesis by simp
  next
    case False
    with 1 have ih: "strip_trailing_slashes (collapse_slashes (b # xs)) = keep_slashes (b # xs)"
      by simp
    have ne: "a = CHR ''/'' \<Longrightarrow> keep_slashes (b # xs) \<noteq> []"
      using False by simp
    have c: "collapse_slashes (a # b # xs) = a # collapse_slashes (b # xs)"
      using False by simp
    have "strip_trailing_slashes (collapse_slashes (a # b # xs)) = a # keep_slashes (b # xs)"
      unfolding c strip_trailing_slashes_Cons [of a] ih using ne by (cases "a = CHR ''/''") simp_all
    moreover have "keep_slashes (a # b # xs) = a # keep_slashes (b # xs)"
      using False by simp
    ultimately show ?thesis by simp
  qed
qed (simp_all add: strip_trailing_slashes_Cons)

lemma split_on_unfold:
  "split_on c xs =
     takeWhile (\<lambda>x. x \<noteq> c) xs #
       (case dropWhile (\<lambda>x. x \<noteq> c) xs of [] \<Rightarrow> [] | y # r \<Rightarrow> split_on c r)"
  by (induction xs) (auto split: list.splits)

lemma split_on_nonempty: "split_on c xs \<noteq> []"
  by (cases xs) (auto split: list.splits)


lemma spec_segments_slash: "spec_segments (CHR ''/'' # xs) = spec_segments xs"
  by (simp add: spec_segments_def)

lemma joined_Nil: "joined [] = []"
  by (simp add: joined_def spec_segments_def)

lemma joined_slash: "joined (CHR ''/'' # xs) = joined xs"
  by (simp add: joined_def spec_segments_slash)

lemma joined_nonslash:
  assumes "x \<noteq> CHR ''/''"
  shows "joined (x # xs) = CHR ''/'' # x # (if xs = [] \<or> hd xs = CHR ''/'' then joined xs else tl (joined xs))"
proof (cases "split_on CHR ''/'' xs")
  case Nil
  then show ?thesis using split_on_nonempty by blast
next
  case (Cons p ps)
  have p: "p = takeWhile (\<lambda>x. x \<noteq> CHR ''/'') xs"
    using Cons split_on_unfold [of "CHR ''/''" xs] by simp
  have pe: "p = [] \<longleftrightarrow> xs = [] \<or> hd xs = CHR ''/''"
    unfolding p by (cases xs) auto
  have "spec_segments (x # xs) = (x # p) # filter (\<lambda>seg. seg \<noteq> []) ps"
    using assms Cons by (simp add: spec_segments_def)
  moreover have "spec_segments xs = (if p = [] then [] else [p]) @ filter (\<lambda>seg. seg \<noteq> []) ps"
    using Cons by (simp add: spec_segments_def)
  ultimately show ?thesis
    using pe by (auto simp add: joined_def)
qed


lemma joined_head: "xs \<noteq> [] \<Longrightarrow> hd xs \<noteq> CHR ''/'' \<Longrightarrow> joined xs = CHR ''/'' # tl (joined xs)"
  by (cases xs) (simp_all add: joined_nonslash)

lemma keep_slashes_joined:
  "keep_slashes p = (if p \<noteq> [] \<and> hd p \<noteq> CHR ''/'' then tl (joined p) else joined p)"
proof (induction p)
  case Nil
  then show ?case by (simp add: joined_Nil)
next
  case (Cons x xs)
  show ?case
  proof (cases "x = CHR ''/''")
    case True
    show ?thesis
    proof (cases "xs = [] \<or> hd xs = CHR ''/''")
      case True
      with \<open>x = CHR ''/''\<close> Cons show ?thesis by (auto simp: joined_slash)
    next
      case False
      then have j: "CHR ''/'' # tl (joined xs) = joined xs" by (simp add: joined_head [symmetric])
      have "keep_slashes (x # xs) = CHR ''/'' # keep_slashes xs"
        using False \<open>x = CHR ''/''\<close> by simp
      also have "keep_slashes xs = tl (joined xs)" using Cons False by simp
      finally have "keep_slashes (x # xs) = joined (x # xs)"
        using j \<open>x = CHR ''/''\<close> by (simp only: joined_slash)
      then show ?thesis using \<open>x = CHR ''/''\<close> by simp
    qed
  next
    case False
    with Cons show ?thesis by (auto simp: joined_nonslash)
  qed
qed

lemma clean_path_spec:
  assumes "p = [] \<or> hd p = CHR ''/''"
  shows "clean_path p = spec_path p"
proof -
  have "keep_slashes p = joined p" using assms keep_slashes_joined [of p] by auto
  moreover have "joined p = [] \<longleftrightarrow> spec_segments p = []"
    by (auto simp: joined_def)
  ultimately show ?thesis
    by (auto simp add: clean_path_def spec_path_def strip_collapse Let_def joined_def)
qed

lemma takeWhile_append_stop:
  assumes "\<forall>x\<in>set xs. P x" "ys = [] \<or> \<not> P (hd ys)"
  shows "takeWhile P (xs @ ys) = xs" and "dropWhile P (xs @ ys) = ys"
proof -
  from assms(2) have t: "takeWhile P ys = []" and d: "dropWhile P ys = ys"
    by (cases ys; simp)+
  from assms(1) show "takeWhile P (xs @ ys) = xs"
    by (simp add: takeWhile_append2 t)
  from assms(1) show "dropWhile P (xs @ ys) = ys"
    by (simp add: dropWhile_append2 d)
qed

lemma trim_idem: "trim (trim s) = trim s"
proof -
  define a where "a = dropWhile is_space s"
  define b where "b = dropWhile is_space (rev a)"
  have ts: "trim s = rev b" by (simp add: trim_def a_def b_def)
  have a_split: "a = rev b @ rev (takeWhile is_space (rev a))"
  proof -
    have "rev a = takeWhile is_space (rev a) @ b" by (simp add: b_def)
    then have "rev (rev a) = rev (takeWhile is_space (rev a) @ b)" by simp
    then show ?thesis by simp
  qed
  have front: "dropWhile is_space (rev b) = rev b"
  proof (cases "rev b")
    case Nil
    then show ?thesis by simp
  next
    case (Cons x xs)
    then have "hd a = x" using a_split by (metis append_Cons list.sel(1))
    moreover have "a \<noteq> []" using a_split Cons by auto
    ultimately have "\<not> is_space x" unfolding a_def using hd_dropWhile by metis
    then show ?thesis using Cons by simp
  qed
  have bk: "dropWhile is_space b = b" by (simp add: b_def)
  show ?thesis unfolding ts by (simp add: trim_def front bk)
qed

lemma strip_trailing_slashes_id:
  assumes "xs \<noteq> []" "last xs \<noteq> CHR ''/''"
  shows "strip_trailing_slashes xs = xs"
proof -
  from assms have "rev xs \<noteq> []" "hd (rev xs) \<noteq> CHR ''/''" by (simp_all add: hd_rev)
  then have "dropWhile (\<lambda>c. c = CHR ''/'') (rev xs) = rev xs" by (cases "rev xs") auto
  then show ?thesis by (simp add: strip_trailing_slashes_def)
qed

lemma upper_http: "toUpperCase ''http://'' = ''HTTP://''" by code_simp
lemma upper_https: "toUpperCase ''https://'' = ''HTTPS://''" by code_simp
lemma upper_https7: "toUpperCase ''https:/'' \<noteq> ''HTTP://''" by code_simp

lemma match_absolute_parts:
  assumes scheme: "scheme = ''http://'' \<or> scheme = ''https://''"
    and host: "host \<noteq> []" "\<forall>c\<in>set host. c \<notin> set ''/?#''"
    and path: "path = [] \<or> hd path = CHR ''/''" "\<forall>c\<in>set path. c \<notin> set ''?#''"
    and query: "query = [] \<or> hd query = CHR ''?''" "CHR ''#'' \<notin> set query"
    and frag: "frag = [] \<or> hd frag = CHR ''#''"
  shows "match_absolute (scheme @ host @ path @ query @ frag) =
           Some (scheme @ host, if path = [] then None else Some path,
                 if query = [] then None else Some query)"
proof -
  let ?text = "scheme @ host @ path @ query @ frag"
  define n :: nat where "n = (if toUpperCase (take 7 ?text) = ''HTTP://'' then 7
               else if toUpperCase (take 8 ?text) = ''HTTPS://'' then 8 else 0)"
  have n: "n = length scheme" "n \<noteq> 0"
    using scheme by (auto simp: n_def upper_http upper_https upper_https7)
  have tk: "take n ?text = scheme" and dr: "drop n ?text = host @ path @ query @ frag"
    using n by simp_all
  have stop1: "path @ query @ frag = [] \<or> \<not> (hd (path @ query @ frag) \<notin> set ''/?#'')"
    using path(1) query(1) frag by (cases path; cases query; cases frag; simp)
  have h: "takeWhile (\<lambda>c. c \<notin> set ''/?#'') (host @ path @ query @ frag) = host"
    and r1: "dropWhile (\<lambda>c. c \<notin> set ''/?#'') (host @ path @ query @ frag) = path @ query @ frag"
    using host(2) stop1 by (intro takeWhile_append_stop; blast)+
  have sl: "startsWith (path @ query @ frag) ''/'' \<longleftrightarrow> path \<noteq> []"
    using path(1) query(1) frag by (cases path; cases query; cases frag; auto simp: startsWith_def)
  have stop2: "query @ frag = [] \<or> \<not> (hd (query @ frag) \<notin> set ''?#'')"
    using query(1) frag by (cases query; cases frag; simp)
  have g2: "takeWhile (\<lambda>c. c \<notin> set ''?#'') (path @ query @ frag) = path"
    and r2: "dropWhile (\<lambda>c. c \<notin> set ''?#'') (path @ query @ frag) = query @ frag"
    using path(2) stop2 by (intro takeWhile_append_stop; blast)+
  have qs: "startsWith (query @ frag) ''?'' \<longleftrightarrow> query \<noteq> []"
    using query(1) frag by (cases query; cases frag; auto simp: startsWith_def)
  have stop3: "frag = [] \<or> \<not> (hd frag \<noteq> CHR ''#'')" using frag by auto
  have g3: "takeWhile (\<lambda>c. c \<noteq> CHR ''#'') (query @ frag) = query"
    using query(2) stop3 by (intro takeWhile_append_stop; blast)
  have rest2: "(if startsWith (path @ query @ frag) ''/''
                then dropWhile (\<lambda>c. c \<notin> set ''?#'') (path @ query @ frag)
                else path @ query @ frag) = query @ frag"
    using sl r2 by auto
  show ?thesis
    unfolding match_absolute_def n_def [symmetric] Let_def tk dr h r1
    unfolding rest2 g2 g3
    unfolding sl qs
    using n host(1) by simp
qed

lemma normalizeAbsoluteUrl_parts:
  assumes t: "trim text = scheme @ host @ path @ query @ frag"
    and scheme: "scheme = ''http://'' \<or> scheme = ''https://''"
    and host: "host \<noteq> []" "\<forall>c\<in>set host. c \<notin> set ''/?#''"
    and path: "path = [] \<or> hd path = CHR ''/''" "\<forall>c\<in>set path. c \<notin> set ''?#''"
    and query: "query = [] \<or> hd query = CHR ''?''" "CHR ''#'' \<notin> set query"
    and frag: "frag = [] \<or> hd frag = CHR ''#''"
  shows "normalizeAbsoluteUrl text = scheme @ host @ spec_path path @ query"
proof -
  have m: "match_absolute (trim text) =
           Some (scheme @ host, if path = [] then None else Some path,
                 if query = [] then None else Some query)"
    unfolding t using assms(2-) by (rule match_absolute_parts)
  have "last (scheme @ host) \<noteq> CHR ''/''" using host by (auto simp: last_in_set)
  then have o: "strip_trailing_slashes (scheme @ host) = scheme @ host"
    using host(1) by (intro strip_trailing_slashes_id) auto
  have p: "clean_path (case (if path = [] then None else Some path) of Some p \<Rightarrow> p | None \<Rightarrow> ''/'')
             = spec_path path"
  proof (cases "path = []")
    case True
    have "clean_path ''/'' = spec_path ''/''" by (rule clean_path_spec) simp
    also have "spec_path ''/'' = spec_path []" by (simp add: spec_path_def spec_segments_def)
    finally show ?thesis using True by simp
  next
    case False
    then show ?thesis using path(1) by (simp add: clean_path_spec)
  qed
  have q: "(case (if query = [] then None else Some query) of Some q \<Rightarrow> q | None \<Rightarrow> []) = query"
    by simp
  show ?thesis
    unfolding normalizeAbsoluteUrl_def m by (simp only: option.case prod.case Let_def o p q append_assoc)
qed


lemma normalizePath_parts:
  assumes t: "trim text = rpath @ rest"
    and rpath: "CHR ''?'' \<notin> set rpath"
    and rest: "rest = [] \<or> hd rest = CHR ''?''"
  shows "normalizePath text =
           spec_path rpath @
             (let q = takeWhile (\<lambda>c. c \<noteq> CHR ''?'') (tl rest)
              in if q = [] then [] else CHR ''?'' # q)"
proof (cases "trim text = []")
  case True
  with t have "rpath = []" "rest = []" by simp_all
  then show ?thesis using True
    by (simp add: normalizePath_def spec_path_def spec_segments_def)
next
  case False
  define w where "w = (if startsWith (trim text) ''/'' then trim text else ''/'' @ trim text)"
  define lead where "lead = (if startsWith (trim text) ''/'' then [] else ''/'')"
  have w: "w = (lead @ rpath) @ rest" by (simp add: w_def lead_def t)
  have stop: "rest = [] \<or> \<not> (hd rest \<noteq> CHR ''?'')" using rest by auto
  have all: "\<forall>c\<in>set (lead @ rpath). c \<noteq> CHR ''?''" using rpath by (auto simp: lead_def)
  have tw: "takeWhile (\<lambda>x. x \<noteq> CHR ''?'') w = lead @ rpath"
    unfolding w using all stop by (intro takeWhile_append_stop; blast)
  have dw: "dropWhile (\<lambda>x. x \<noteq> CHR ''?'') w = rest"
    unfolding w using all stop by (intro takeWhile_append_stop; blast)
  have parts: "split_on CHR ''?'' w =
      (lead @ rpath) # (case rest of [] \<Rightarrow> [] | y # r \<Rightarrow> split_on CHR ''?'' r)"
    using split_on_unfold [of "CHR ''?''" w] by (simp add: tw dw)
  have rawPath: "(case split_on CHR ''?'' w of p # r \<Rightarrow> p | [] \<Rightarrow> []) = lead @ rpath"
    by (simp add: parts)
  have rawQuery: "(case split_on CHR ''?'' w of p # q # r \<Rightarrow> q | _ \<Rightarrow> []) =
      takeWhile (\<lambda>c. c \<noteq> CHR ''?'') (tl rest)"
  proof (cases rest)
    case Nil
    then show ?thesis by (simp add: parts)
  next
    case (Cons y r)
    then show ?thesis
      using split_on_unfold [of "CHR ''?''" r] by (simp add: parts)
  qed
  have cp: "clean_path (lead @ rpath) = spec_path rpath"
  proof (cases "startsWith (trim text) ''/''")
    case True
    then have "rpath \<noteq> [] \<and> hd rpath = CHR ''/''"
      using t rest False by (cases rpath; cases rest) (auto simp: startsWith_def)
    then show ?thesis using True by (simp add: lead_def clean_path_spec)
  next
    case False
    then have "clean_path (lead @ rpath) = spec_path (CHR ''/'' # rpath)"
      by (simp add: lead_def clean_path_spec)
    then show ?thesis by (simp add: spec_path_def spec_segments_slash)
  qed
  define q where "q = takeWhile (\<lambda>c. c \<noteq> CHR ''?'') (tl rest)"
  show ?thesis
    using False
    unfolding normalizePath_def Let_def w_def [symmetric]
    unfolding rawPath rawQuery cp q_def [symmetric]
    by simp
qed


lemma spec_path_leading_slash: "hd (spec_path p) = CHR ''/''"
proof (cases "spec_segments p")
  case Nil
  then show ?thesis by (simp add: spec_path_def)
next
  case (Cons a list)
  then show ?thesis by (simp add: spec_path_def)
qed


lemma keep_slashes_head:
  "xs \<noteq> [] \<Longrightarrow> hd xs \<noteq> CHR ''/'' \<Longrightarrow> keep_slashes xs \<noteq> [] \<and> hd (keep_slashes xs) = hd xs"
  by (cases xs) simp_all

lemma has_double_slash_Cons:
  "has_double_slash (x # ys) \<longleftrightarrow> (ys \<noteq> [] \<and> x = CHR ''/'' \<and> hd ys = CHR ''/'') \<or> has_double_slash ys"
  by (cases ys) auto

lemma keep_slashes_shape:
  "\<not> has_double_slash (keep_slashes xs) \<and>
   (keep_slashes xs = [] \<or> last (keep_slashes xs) \<noteq> CHR ''/'')"
proof (induction xs)
  case Nil
  then show ?case by simp
next
  case (Cons x xs)
  show ?case
  proof (cases "x = CHR ''/'' \<and> (xs = [] \<or> hd xs = CHR ''/'')")
    case True
    then show ?thesis using Cons by simp
  next
    case False
    then have k: "keep_slashes (x # xs) = x # keep_slashes xs" by auto
    have h: "x = CHR ''/'' \<Longrightarrow> keep_slashes xs \<noteq> [] \<and> hd (keep_slashes xs) \<noteq> CHR ''/''"
      using False keep_slashes_head [of xs] by auto
    show ?thesis
      unfolding k has_double_slash_Cons using Cons h by auto
  qed
qed

lemma spec_path_keep: "spec_path p = (if keep_slashes (CHR ''/'' # p) = [] then ''/'' else keep_slashes (CHR ''/'' # p))"
proof -
  have "keep_slashes (CHR ''/'' # p) = joined p"
    using keep_slashes_joined [of "CHR ''/'' # p"] by (simp add: joined_slash del: keep_slashes.simps)
  moreover have "joined p = [] \<longleftrightarrow> spec_segments p = []" by (auto simp: joined_def)
  ultimately show ?thesis by (simp add: spec_path_def joined_def del: keep_slashes.simps)
qed

lemma spec_path_shape:
  "\<not> has_double_slash (spec_path p) \<and> (spec_path p = ''/'' \<or> last (spec_path p) \<noteq> CHR ''/'')"
  unfolding spec_path_keep using keep_slashes_shape [of "CHR ''/'' # p"] by auto


lemma normalizeTarget_relative:
  assumes rel: "\<not> (startsWith (trim target) ''http://'' \<or> startsWith (trim target) ''https://'') \<or>
     match_absolute (trim target) = None"
    and tt: "trim target = rpath @ rest" and r1: "CHR ''?'' \<notin> set rpath"
    and r2: "rest = [] \<or> hd rest = CHR ''?''"
  shows "normalizeTarget target =
        spec_path rpath @
          (let q = takeWhile (\<lambda>c. c \<noteq> CHR ''?'') (tl rest)
           in if q = [] then [] else CHR ''?'' # q)"
proof -
  from tt have t: "trim (trim target) = rpath @ rest" using trim_idem [of target] by simp
  define tail where "tail = (let q = takeWhile (\<lambda>c. c \<noteq> CHR ''?'') (tl rest)
           in if q = [] then [] else CHR ''?'' # q)"
  have np: "normalizePath (trim target) = spec_path rpath @ tail"
    unfolding tail_def using t r1 r2 by (rule normalizePath_parts)
  have "normalizeTarget target = spec_path rpath @ tail"
  proof (cases "trim target = []")
    case True
    then have e: "rpath = []" "rest = []" using tt by simp_all
    have "tail = []" by (simp add: tail_def e)
    moreover have "spec_path rpath = ''/''" by (simp add: e spec_path_def spec_segments_def)
    ultimately show ?thesis using True by (simp add: normalizeTarget_def)
  next
    case False
    show ?thesis
    proof (cases "startsWith (trim target) ''http://'' \<or> startsWith (trim target) ''https://''")
      case True
      with rel have "match_absolute (trim (trim target)) = None" by (simp add: trim_idem)
      then have "normalizeAbsoluteUrl (trim target) = normalizePath (trim target)"
        by (simp add: normalizeAbsoluteUrl_def)
      then show ?thesis
        using \<open>trim target \<noteq> []\<close> True np by (simp add: normalizeTarget_def Let_def)
    next
      case False
      then show ?thesis
        using \<open>trim target \<noteq> []\<close> np by (simp add: normalizeTarget_def Let_def)
    qed
  qed
  then show ?thesis unfolding tail_def .
qed

text \<open>
  The normal form of the key, as the code computes it. The key is the method trimmed
  and uppercased, one space, and the normalized target. For a target that, trimmed, is
  an absolute URL as the code tests it (the scheme \<open>http://\<close> or \<open>https://\<close> in lower
  case, a non-empty host, then an optional path, an optional query and an optional
  fragment) the normalized target is the scheme and host as they came, the path
  normalized as the specification words it, and the query as it came. For any other
  target (one that does not start with \<open>http://\<close> or \<open>https://\<close>, or starts so and has
  no host), split at its first question mark, the normalized target is the path
  normalized in the same way, with its leading slash, followed by what the code keeps
  of the query: its part before a second question mark, hence the whole query when it
  is not empty and holds no further question mark. The normalized path always starts
  with a slash, holds no two slashes side by side, and ends with a slash only when it
  is the bare root.
\<close>

theorem buildInFlightKey_normal_form:
  "buildInFlightKey method target = toUpperCase (trim method) @ '' '' @ normalizeTarget target \<and>
   (trim target = scheme @ host @ path @ query @ frag \<and>
    (scheme = ''http://'' \<or> scheme = ''https://'') \<and>
    host \<noteq> [] \<and> (\<forall>c\<in>set host. c \<notin> set ''/?#'') \<and>
    (path = [] \<or> hd path = CHR ''/'') \<and> (\<forall>c\<in>set path. c \<notin> set ''?#'') \<and>
    (query = [] \<or> hd query = CHR ''?'') \<and> CHR ''#'' \<notin> set query \<and>
    (frag = [] \<or> hd frag = CHR ''#'') \<longrightarrow>
      normalizeTarget target = scheme @ host @ spec_path path @ query) \<and>
   ((\<not> (startsWith (trim target) ''http://'' \<or> startsWith (trim target) ''https://'') \<or>
     match_absolute (trim target) = None) \<and>
    trim target = rpath @ rest \<and> CHR ''?'' \<notin> set rpath \<and> (rest = [] \<or> hd rest = CHR ''?'') \<longrightarrow>
      normalizeTarget target =
        spec_path rpath @
          (let q = takeWhile (\<lambda>c. c \<noteq> CHR ''?'') (tl rest)
           in if q = [] then [] else CHR ''?'' # q)) \<and>
   ((\<not> (startsWith (trim target) ''http://'' \<or> startsWith (trim target) ''https://'') \<or>
     match_absolute (trim target) = None) \<and>
    trim target = qpath @ CHR ''?'' # qs \<and> CHR ''?'' \<notin> set qpath \<and>
    qs \<noteq> [] \<and> CHR ''?'' \<notin> set qs \<longrightarrow>
      normalizeTarget target = spec_path qpath @ CHR ''?'' # qs) \<and>
   hd (spec_path p) = CHR ''/'' \<and>
   \<not> has_double_slash (spec_path p) \<and>
   (spec_path p = ''/'' \<or> last (spec_path p) \<noteq> CHR ''/'')"
proof (intro conjI impI)
  show "buildInFlightKey method target = toUpperCase (trim method) @ '' '' @ normalizeTarget target"
    by (simp add: buildInFlightKey_def)
next
  assume a: "trim target = scheme @ host @ path @ query @ frag \<and>
    (scheme = ''http://'' \<or> scheme = ''https://'') \<and>
    host \<noteq> [] \<and> (\<forall>c\<in>set host. c \<notin> set ''/?#'') \<and>
    (path = [] \<or> hd path = CHR ''/'') \<and> (\<forall>c\<in>set path. c \<notin> set ''?#'') \<and>
    (query = [] \<or> hd query = CHR ''?'') \<and> CHR ''#'' \<notin> set query \<and>
    (frag = [] \<or> hd frag = CHR ''#'')"
  from a have a1: "trim target = scheme @ host @ path @ query @ frag" by (elim conjE)
  from a have a2: "scheme = ''http://'' \<or> scheme = ''https://''" by (elim conjE)
  from a have a3: "host \<noteq> []" by (elim conjE)
  from a have a4: "\<forall>c\<in>set host. c \<notin> set ''/?#''" by (elim conjE)
  from a have a5: "path = [] \<or> hd path = CHR ''/''" by (elim conjE)
  from a have a6: "\<forall>c\<in>set path. c \<notin> set ''?#''" by (elim conjE)
  from a have a7: "query = [] \<or> hd query = CHR ''?''" by (elim conjE)
  from a have a8: "CHR ''#'' \<notin> set query" by (elim conjE)
  from a have a9: "frag = [] \<or> hd frag = CHR ''#''" by (elim conjE)
  from a1 have t: "trim (trim target) = scheme @ host @ path @ query @ frag"
    using trim_idem [of target] by simp
  have ne: "trim target \<noteq> []" unfolding a1 using a3 by simp
  have abs: "startsWith (trim target) ''http://'' \<or> startsWith (trim target) ''https://''"
    unfolding a1 using a2 by (auto simp: startsWith_def)
  have "normalizeAbsoluteUrl (trim target) = scheme @ host @ spec_path path @ query"
    using t a2 a3 a4 a5 a6 a7 a8 a9 by (rule normalizeAbsoluteUrl_parts)
  then show "normalizeTarget target = scheme @ host @ spec_path path @ query"
    using ne abs by (simp add: normalizeTarget_def Let_def)
next
  assume a: "(\<not> (startsWith (trim target) ''http://'' \<or> startsWith (trim target) ''https://'') \<or>
     match_absolute (trim target) = None) \<and>
    trim target = rpath @ rest \<and> CHR ''?'' \<notin> set rpath \<and> (rest = [] \<or> hd rest = CHR ''?'')"
  from a have rel: "\<not> (startsWith (trim target) ''http://'' \<or> startsWith (trim target) ''https://'') \<or>
     match_absolute (trim target) = None" by (elim conjE)
  from a have tt: "trim target = rpath @ rest" by (elim conjE)
  from a have r1: "CHR ''?'' \<notin> set rpath" by (elim conjE)
  from a have r2: "rest = [] \<or> hd rest = CHR ''?''" by (elim conjE)
  from rel tt r1 r2 show "normalizeTarget target =
        spec_path rpath @
          (let q = takeWhile (\<lambda>c. c \<noteq> CHR ''?'') (tl rest)
           in if q = [] then [] else CHR ''?'' # q)"
    by (rule normalizeTarget_relative)
next
  assume a: "(\<not> (startsWith (trim target) ''http://'' \<or> startsWith (trim target) ''https://'') \<or>
     match_absolute (trim target) = None) \<and>
    trim target = qpath @ CHR ''?'' # qs \<and> CHR ''?'' \<notin> set qpath \<and>
    qs \<noteq> [] \<and> CHR ''?'' \<notin> set qs"
  from a have rel: "\<not> (startsWith (trim target) ''http://'' \<or> startsWith (trim target) ''https://'') \<or>
     match_absolute (trim target) = None" by (elim conjE)
  from a have tt: "trim target = qpath @ CHR ''?'' # qs" by (elim conjE)
  from a have r1: "CHR ''?'' \<notin> set qpath" by (elim conjE)
  from a have q1: "qs \<noteq> []" by (elim conjE)
  from a have q2: "CHR ''?'' \<notin> set qs" by (elim conjE)
  have tw: "takeWhile (\<lambda>c. c \<noteq> CHR ''?'') qs = qs"
    using q2 by (simp add: takeWhile_eq_all_conv) blast
  have "normalizeTarget target =
        spec_path qpath @
          (let q = takeWhile (\<lambda>c. c \<noteq> CHR ''?'') (tl (CHR ''?'' # qs))
           in if q = [] then [] else CHR ''?'' # q)"
    using rel tt r1 by (rule normalizeTarget_relative) simp
  then show "normalizeTarget target = spec_path qpath @ CHR ''?'' # qs"
    using tw q1 by (simp add: Let_def)
next
  show "hd (spec_path p) = CHR ''/''" by (rule spec_path_leading_slash)
next
  show "\<not> has_double_slash (spec_path p)" using spec_path_shape [of p] by blast
next
  show "spec_path p = ''/'' \<or> last (spec_path p) \<noteq> CHR ''/''"
    using spec_path_shape [of p] by blast
qed

text \<open>
  An absolute target with repeated slashes, a trailing slash, a query and a fragment,
  a relative target without its leading slash, and a relative target whose query is
  kept whole.
\<close>

theorem buildInFlightKey_normal_form_witness:
  "buildInFlightKey '' put '' '' https://host.example:5551//api//videos/?a=1?b=//#frag ''
     = ''PUT https://host.example:5551/api/videos?a=1?b=//'' \<and>
   buildInFlightKey ''delete'' ''videos//abc/?flag=1'' = ''DELETE /videos/abc?flag=1'' \<and>
   buildInFlightKey ''post'' ''/a//b/?x=1&y=2'' = ''POST /a/b?x=1&y=2''"
proof -
  have t1: "trim '' https://host.example:5551//api//videos/?a=1?b=//#frag '' =
      ''https://'' @ ''host.example:5551'' @ ''//api//videos/'' @ ''?a=1?b=//'' @ ''#frag''"
    by code_simp
  have s1: "spec_path ''//api//videos/'' = ''/api/videos''" by code_simp
  have m1: "toUpperCase (trim '' put '') = ''PUT''" by code_simp
  have t2: "trim ''videos//abc/?flag=1'' = ''videos//abc/'' @ ''?flag=1''" by code_simp
  have n2: "\<not> startsWith (trim ''videos//abc/?flag=1'') ''http://''"
    "\<not> startsWith (trim ''videos//abc/?flag=1'') ''https://''" by code_simp+
  have s2: "spec_path ''videos//abc/'' = ''/videos/abc''" by code_simp
  have m2: "toUpperCase (trim ''delete'') = ''DELETE''" by code_simp
  have k1: "buildInFlightKey '' put '' '' https://host.example:5551//api//videos/?a=1?b=//#frag ''
     = ''PUT https://host.example:5551/api/videos?a=1?b=//''"
    using buildInFlightKey_normal_form [of "'' put ''"
        "'' https://host.example:5551//api//videos/?a=1?b=//#frag ''"
        "''https://''" "''host.example:5551''" "''//api//videos/''" "''?a=1?b=//''" "''#frag''"
        "[]" "[]" "[]"] t1 s1 m1
    by simp
  have k2: "buildInFlightKey ''delete'' ''videos//abc/?flag=1'' = ''DELETE /videos/abc?flag=1''"
    using buildInFlightKey_normal_form [of "''delete''" "''videos//abc/?flag=1''"
        "[]" "[]" "[]" "[]" "[]" "''videos//abc/''" "''?flag=1''" "[]"] t2 n2 s2 m2
    by simp
  have t3: "trim ''/a//b/?x=1&y=2'' = ''/a//b/'' @ CHR ''?'' # ''x=1&y=2''" by code_simp
  have n3: "\<not> startsWith (trim ''/a//b/?x=1&y=2'') ''http://''"
    "\<not> startsWith (trim ''/a//b/?x=1&y=2'') ''https://''" by code_simp+
  have s3: "spec_path ''/a//b/'' = ''/a/b''" by code_simp
  have m3: "toUpperCase (trim ''post'') = ''POST''" by code_simp
  have k3: "buildInFlightKey ''post'' ''/a//b/?x=1&y=2'' = ''POST /a/b?x=1&y=2''"
    using buildInFlightKey_normal_form [of "''post''" "''/a//b/?x=1&y=2''"
        "[]" "[]" "[]" "[]" "[]" "[]" "[]" "''/a//b/''" "''x=1&y=2''" "[]"] t3 n3 s3 m3
    by simp
  from k1 k2 k3 show ?thesis by blast
qed

text \<open>
  C7. The claim has every absolute http(s) URL keep its scheme and host, and has the
  query kept verbatim. The code misses both on inputs it can receive. The guard of
  \<open>normalizeTarget\<close> tests the scheme with a case-sensitive \<open>startsWith\<close>, although the
  pattern of \<open>normalizeAbsoluteUrl\<close> behind it carries the case-insensitive flag: the
  absolute URL \<open>HTTP://Host/a//b/\<close> is normalized as a relative path and loses its
  scheme and host, where the same URL with a lower-case scheme keeps them. And
  \<open>normalizePath\<close> splits at every question mark and keeps the first two pieces, so a
  relative target loses its query from a second question mark on, where the absolute
  branch keeps the same query whole.
\<close>

theorem buildInFlightKey_divergence:
  "buildInFlightKey ''POST'' ''HTTP://Host/a//b/'' = ''POST /HTTP:/Host/a/b'' \<and>
   buildInFlightKey ''POST'' ''http://Host/a//b/'' = ''POST http://Host/a/b'' \<and>
   buildInFlightKey ''DELETE'' ''/videos/1?a=1?b=2'' = ''DELETE /videos/1?a=1'' \<and>
   buildInFlightKey ''DELETE'' ''http://h/videos/1?a=1?b=2'' = ''DELETE http://h/videos/1?a=1?b=2''"
  by code_simp

section \<open>Properties of the in-flight ledger\<close>

lemma inv_empty: "ledger_inv empty_ledger"
  by (simp add: ledger_inv_def empty_ledger_def executing_def)

lemma inv_call:
  assumes "ledger_inv s"
  shows "ledger_inv (snd (withInFlightKey key f s))"
proof (cases "inFlightRequests s key")
  case (Some existing)
  then show ?thesis using assms by (simp add: withInFlightKey_def)
next
  case None
  define n where "n = nextPromise s"
  have fresh: "promises s n = None" "finalizers s n = None"
    using assms unfolding ledger_inv_def n_def by (metis less_irrefl)+
  have nokey: "\<And>p. finalizers s p \<noteq> Some key"
    using assms None unfolding ledger_inv_def by (metis option.distinct(1))
  have nofresh: "\<And>k. inFlightRequests s k \<noteq> Some n"
    using assms fresh unfolding ledger_inv_def by (metis option.distinct(1))
  have s': "snd (withInFlightKey key f s) =
      s\<lparr>inFlightRequests := (inFlightRequests s)(key \<mapsto> n),
        promises := (promises s)(n \<mapsto> Scheduled f),
        finalizers := (finalizers s)(n \<mapsto> key),
        nextPromise := n + 1\<rparr>"
    using None by (simp add: withInFlightKey_def Let_def n_def)
  have 1: "\<forall>p. promises (snd (withInFlightKey key f s)) p \<noteq> None \<longrightarrow>
             p < nextPromise (snd (withInFlightKey key f s))"
    unfolding s' using assms by (auto simp: ledger_inv_def n_def less_Suc_eq)
  have 2: "\<forall>k p. (inFlightRequests (snd (withInFlightKey key f s)) k = Some p) =
             (finalizers (snd (withInFlightKey key f s)) p = Some k)"
    unfolding s' using assms nokey nofresh by (auto simp: ledger_inv_def)
  have 3: "\<forall>p. executing (snd (withInFlightKey key f s)) p \<longrightarrow>
             finalizers (snd (withInFlightKey key f s)) p \<noteq> None"
    unfolding s' using assms by (auto simp: ledger_inv_def executing_def)
  have 4: "\<forall>p. finalizers (snd (withInFlightKey key f s)) p \<noteq> None \<longrightarrow>
             promises (snd (withInFlightKey key f s)) p \<noteq> None"
    unfolding s' using assms by (auto simp: ledger_inv_def)
  from 1 2 3 4 show ?thesis unfolding ledger_inv_def by blast
qed

lemma inv_finalize:
  assumes "ledger_inv s" "promises s p = Some (Settled r)" "finalizers s p = Some key"
  shows "ledger_inv ((finalize key p s)\<lparr>finalizers := (finalizers (finalize key p s))(p := None)\<rparr>)"
proof -
  have reg: "inFlightRequests s key = Some p" using assms unfolding ledger_inv_def by blast
  have s': "(finalize key p s)\<lparr>finalizers := (finalizers (finalize key p s))(p := None)\<rparr> =
      s\<lparr>inFlightRequests := (inFlightRequests s)(key := None),
        finalizers := (finalizers s)(p := None)\<rparr>"
    using reg by (simp add: finalize_def)
  have np: "\<not> executing s p" using assms(2) by (simp add: executing_def)
  have 2: "\<forall>k q. (((inFlightRequests s)(key := None)) k = Some q) =
             (((finalizers s)(p := None)) q = Some k)"
  proof (intro allI)
    fix k q
    have old: "(inFlightRequests s k = Some q) = (finalizers s q = Some k)"
      using assms(1) unfolding ledger_inv_def by blast
    show "(((inFlightRequests s)(key := None)) k = Some q) =
             (((finalizers s)(p := None)) q = Some k)"
      using old reg assms(3) by (cases "k = key"; cases "q = p") auto
  qed
  show ?thesis
    unfolding s' using assms(1) np 2
    by (auto simp: ledger_inv_def executing_def)
qed

lemma inv_promise_update:
  assumes inv: "ledger_inv s" and old: "promises s p = Some a"
    and ex: "unsettled b \<longrightarrow> executing s p"
    and s': "promises s' = (promises s)(p \<mapsto> b)" "inFlightRequests s' = inFlightRequests s"
      "finalizers s' = finalizers s" "nextPromise s' = nextPromise s"
  shows "ledger_inv s'"
proof -
  have 1: "\<forall>q. promises s' q \<noteq> None \<longrightarrow> q < nextPromise s'"
  proof (intro allI impI)
    fix q assume "promises s' q \<noteq> None"
    then have "promises s q \<noteq> None" using old s'(1) by (cases "q = p") auto
    then show "q < nextPromise s'" using inv s'(4) by (simp add: ledger_inv_def)
  qed
  have 2: "\<forall>k q. (inFlightRequests s' k = Some q) = (finalizers s' q = Some k)"
    using inv s'(2,3) by (simp add: ledger_inv_def)
  have 3: "\<forall>q. executing s' q \<longrightarrow> finalizers s' q \<noteq> None"
  proof (intro allI impI)
    fix q assume e: "executing s' q"
    have "executing s q"
    proof (cases "q = p")
      case True
      then have "promises s' q = Some b" using s'(1) by simp
      with e ex True show ?thesis by (simp add: executing_def)
    next
      case False
      then show ?thesis using e s'(1) by (simp add: executing_def)
    qed
    then show "finalizers s' q \<noteq> None" using inv s'(3) by (simp add: ledger_inv_def)
  qed
  have 4: "\<forall>q. finalizers s' q \<noteq> None \<longrightarrow> promises s' q \<noteq> None"
  proof (intro allI impI)
    fix q assume "finalizers s' q \<noteq> None"
    then have "promises s q \<noteq> None" using inv s'(3) by (simp add: ledger_inv_def)
    then show "promises s' q \<noteq> None" using s'(1) by (cases "q = p") auto
  qed
  from 1 2 3 4 show ?thesis unfolding ledger_inv_def by blast
qed

lemma inv_step:
  assumes "ledger_inv s" "step e s = Some s'"
  shows "ledger_inv s'"
proof (cases e)
  case (Call key f)
  then show ?thesis using assms inv_call [of s key f] by simp
next
  case (Start p)
  with assms(2) obtain f where f: "promises s p = Some (Scheduled f)"
    and s': "s' = s\<lparr>promises := (promises s)(p \<mapsto> Running f), invoked := invoked s @ [(p, f)]\<rparr>"
    by (auto split: option.splits promise.splits)
  have "executing s p" using f by (simp add: executing_def)
  then show ?thesis
    using assms(1) f s' by (intro inv_promise_update [of s p "Scheduled f" "Running f" s']) simp_all
next
  case (Settle p r)
  with assms(2) obtain f where f: "promises s p = Some (Running f)"
    and s': "s' = s\<lparr>promises := (promises s)(p \<mapsto> Settled r)\<rparr>"
    by (auto split: option.splits promise.splits)
  show ?thesis
    using assms(1) f s' by (intro inv_promise_update [of s p "Running f" "Settled r" s']) simp_all
next
  case (Finally p)
  then show ?thesis using assms inv_finalize [of s p]
    by (auto split: option.splits promise.splits)
qed

lemma inv_run: "ledger_inv s \<Longrightarrow> run es s = Some s' \<Longrightarrow> ledger_inv s'"
  by (induction es arbitrary: s) (auto split: option.splits dest: inv_step)


lemma settled_step:
  assumes "ledger_inv s" "promises s p = Some (Settled r)" "step e s = Some s'"
  shows "promises s' p = Some (Settled r)"
proof (cases e)
  case (Call key f)
  have "p < nextPromise s" using assms(1,2) by (simp add: ledger_inv_def)
  then show ?thesis using Call assms(2,3)
    by (auto simp: withInFlightKey_def Let_def split: option.splits)
next
  case (Start q)
  then show ?thesis using assms(2,3) by (auto split: option.splits promise.splits)
next
  case (Settle q r')
  then show ?thesis using assms(2,3) by (auto split: option.splits promise.splits)
next
  case (Finally q)
  then show ?thesis using assms(2,3)
    by (auto simp: finalize_def split: option.splits promise.splits)
qed

lemma settled_run:
  "ledger_inv s \<Longrightarrow> promises s p = Some (Settled r) \<Longrightarrow> run es s = Some s' \<Longrightarrow>
   promises s' p = Some (Settled r)"
proof (induction es arbitrary: s)
  case Nil
  then show ?case by simp
next
  case (Cons e es)
  from Cons.prems(3) obtain s1 where s1: "step e s = Some s1" "run es s1 = Some s'"
    by (auto split: option.splits)
  have "ledger_inv s1" using Cons.prems(1) s1(1) by (rule inv_step)
  moreover have "promises s1 p = Some (Settled r)"
    using Cons.prems(1,2) s1(1) by (rule settled_step)
  ultimately show ?case using s1(2) by (rule Cons.IH)
qed

lemma finalized_step:
  assumes "p < nextPromise s" "finalizers s p = None" "step e s = Some s'"
  shows "p < nextPromise s' \<and> finalizers s' p = None"
proof (cases e)
  case (Call key f)
  then show ?thesis using assms
    by (auto simp: withInFlightKey_def Let_def split: option.splits)
next
  case (Start q)
  then show ?thesis using assms by (auto split: option.splits promise.splits)
next
  case (Settle q r')
  then show ?thesis using assms by (auto split: option.splits promise.splits)
next
  case (Finally q)
  then show ?thesis using assms
    by (auto simp: finalize_def split: option.splits promise.splits)
qed

lemma finalized_run:
  "p < nextPromise s \<Longrightarrow> finalizers s p = None \<Longrightarrow> run es s = Some s' \<Longrightarrow>
   finalizers s' p = None"
proof (induction es arbitrary: s)
  case Nil
  then show ?case by simp
next
  case (Cons e es)
  from Cons.prems(3) obtain s1 where s1: "step e s = Some s1" "run es s1 = Some s'"
    by (auto split: option.splits)
  have "p < nextPromise s1 \<and> finalizers s1 p = None"
    using Cons.prems(1,2) s1(1) by (rule finalized_step)
  then show ?case using s1(2) Cons.IH by blast
qed

lemma one_execution_per_key:
  assumes "ledger_inv s" "executing s p" "executing s q"
    "finalizers s p = Some k" "finalizers s q = Some k"
  shows "p = q"
proof -
  have "inFlightRequests s k = Some p" "inFlightRequests s k = Some q"
    using assms unfolding ledger_inv_def by blast+
  then show ?thesis by simp
qed

lemma finally_once:
  assumes inv: "ledger_inv s" and st: "step (Finally p) s = Some s'"
  shows "\<exists>k. finalizers s p = Some k \<and> inFlightRequests s k = Some p \<and>
             inFlightRequests s' k = None"
    and "\<forall>es s''. run es s' = Some s'' \<longrightarrow> step (Finally p) s'' = None"
proof -
  from st obtain r k where r: "promises s p = Some (Settled r)" and k: "finalizers s p = Some k"
    and s': "s' = (finalize k p s)\<lparr>finalizers := (finalizers (finalize k p s))(p := None)\<rparr>"
    by (auto split: option.splits promise.splits)
  have reg: "inFlightRequests s k = Some p" using inv k unfolding ledger_inv_def by blast
  have gone: "inFlightRequests s' k = None" using reg by (simp add: s' finalize_def)
  show "\<exists>k. finalizers s p = Some k \<and> inFlightRequests s k = Some p \<and>
             inFlightRequests s' k = None"
    using k reg gone by blast
  have lt: "p < nextPromise s'"
    using inv r by (simp add: s' finalize_def ledger_inv_def)
  have none: "finalizers s' p = None" by (simp add: s')
  show "\<forall>es s''. run es s' = Some s'' \<longrightarrow> step (Finally p) s'' = None"
  proof (intro allI impI)
    fix es s'' assume "run es s' = Some s''"
    with lt none have "finalizers s'' p = None" by (rule finalized_run)
    then show "step (Finally p) s'' = None" by (simp split: option.splits promise.splits)
  qed
qed

lemma fresh_call:
  assumes inv: "ledger_inv s" and free: "inFlightRequests s k = None"
  shows "fst (withInFlightKey k f s) = nextPromise s"
    and "promises s (nextPromise s) = None"
    and "inFlightRequests (snd (withInFlightKey k f s)) k = Some (nextPromise s)"
    and "promises (snd (withInFlightKey k f s)) (nextPromise s) = Some (Scheduled f)"
    and "\<exists>s''. step (Start (nextPromise s)) (snd (withInFlightKey k f s)) = Some s'' \<and>
           invoked s'' = invoked s @ [(nextPromise s, f)]"
proof -
  show "promises s (nextPromise s) = None"
    using inv unfolding ledger_inv_def by (metis less_irrefl)
qed (use free in \<open>simp_all add: withInFlightKey_def Let_def\<close>)



lemma settle_then_finally:
  assumes inv: "ledger_inv s" and run: "promises s p = Some (Running f)"
  shows "\<exists>k s1 s2. finalizers s p = Some k \<and> step (Settle p r) s = Some s1 \<and>
           promises s1 p = Some (Settled r) \<and> inFlightRequests s1 k = Some p \<and>
           step (Finally p) s1 = Some s2 \<and> inFlightRequests s2 k = None"
proof -
  have "executing s p" using run by (simp add: executing_def)
  then have "finalizers s p \<noteq> None" using inv by (simp add: ledger_inv_def)
  then obtain k where k: "finalizers s p = Some k" by blast
  then have reg: "inFlightRequests s k = Some p" using inv by (simp add: ledger_inv_def)
  define s1 where "s1 = s\<lparr>promises := (promises s)(p \<mapsto> Settled r)\<rparr>"
  define s2 where "s2 = (finalize k p s1)\<lparr>finalizers := (finalizers (finalize k p s1))(p := None)\<rparr>"
  have 1: "step (Settle p r) s = Some s1" using run by (simp add: s1_def)
  have 2: "promises s1 p = Some (Settled r)" by (simp add: s1_def)
  have 3: "inFlightRequests s1 k = Some p" using reg by (simp add: s1_def)
  have 4: "finalizers s1 p = Some k" using k by (simp add: s1_def)
  have 5: "step (Finally p) s1 = Some s2" using 2 4 by (simp add: s2_def)
  have 6: "inFlightRequests s2 k = None" using 3 by (simp add: s2_def finalize_def)
  show ?thesis
    by (intro exI [of _ k] exI [of _ s1] exI [of _ s2] conjI k 1 2 3 5 6)
qed

lemma finally_enabled:
  assumes inv: "ledger_inv s" and st: "promises s p = Some (Settled r)"
    and k: "finalizers s p = Some k"
  shows "\<exists>s'. step (Finally p) s = Some s' \<and> inFlightRequests s' k = None \<and>
           finalizers s' p = None"
proof -
  have reg: "inFlightRequests s k = Some p" using inv k by (simp add: ledger_inv_def)
  define s' where "s' = (finalize k p s)\<lparr>finalizers := (finalizers (finalize k p s))(p := None)\<rparr>"
  have 1: "step (Finally p) s = Some s'" using st k by (simp add: s'_def)
  have 2: "inFlightRequests s' k = None" using reg by (simp add: s'_def finalize_def)
  have 3: "finalizers s' p = None" by (simp add: s'_def)
  show ?thesis by (intro exI [of _ s'] conjI 1 2 3)
qed

lemma start_enabled:
  assumes "promises s p = Some (Scheduled f)"
  shows "\<exists>s'. step (Start p) s = Some s' \<and> promises s' p = Some (Running f) \<and>
           invoked s' = invoked s @ [(p, f)]"
  using assms by simp

text \<open>
  C5. In every state the events lead to from the empty ledger (calls of
  \<open>withInFlightKey\<close>, factories starting, requests settling and \<open>finally\<close>
  callbacks running, in any order the event loop allows; the test-only reset is not an
  event): a call for a key that has an entry returns the registered promise and leaves
  the state as it is, so its factory is not invoked; a promise that has not settled is
  the entry of its key, so at most one execution is under way per key; a settled
  promise keeps its outcome in every later state, so every holder of it observes the
  same value or failure; the \<open>finally\<close> callback of a promise finds the entry of
  its key still its own, removes it, and never runs again; in any state the callback
  leaves an entry alone that is not its own promise; a call for a key with no entry
  creates a new promise, registers it, and schedules its own factory, which is then
  invoked; a scheduled factory can always start; a running request can settle with
  any outcome, a value or a failure alike, its entry stays until the callback runs,
  and the callback can then run and removes the entry; and the callback of any
  promise that has settled, fulfilled or rejected, and has not run yet can run and
  removes the entry.
\<close>

theorem in_flight_guard:
  "run es empty_ledger = Some s \<longrightarrow>
     (\<forall>k p f. inFlightRequests s k = Some p \<longrightarrow> withInFlightKey k f s = (p, s)) \<and>
     (\<forall>p. executing s p \<longrightarrow> (\<exists>k. finalizers s p = Some k \<and> inFlightRequests s k = Some p)) \<and>
     (\<forall>p q k. executing s p \<and> executing s q \<and>
        finalizers s p = Some k \<and> finalizers s q = Some k \<longrightarrow> p = q) \<and>
     (\<forall>p r es' s'. promises s p = Some (Settled r) \<and> run es' s = Some s' \<longrightarrow>
        promises s' p = Some (Settled r)) \<and>
     (\<forall>p s'. step (Finally p) s = Some s' \<longrightarrow>
        (\<exists>k. finalizers s p = Some k \<and> inFlightRequests s k = Some p \<and>
             inFlightRequests s' k = None) \<and>
        (\<forall>es' s''. run es' s' = Some s'' \<longrightarrow> step (Finally p) s'' = None)) \<and>
     (\<forall>k p. inFlightRequests s k \<noteq> Some p \<longrightarrow> finalize k p s = s) \<and>
     (\<forall>k f. inFlightRequests s k = None \<longrightarrow>
        fst (withInFlightKey k f s) = nextPromise s \<and>
        promises s (nextPromise s) = None \<and>
        inFlightRequests (snd (withInFlightKey k f s)) k = Some (nextPromise s) \<and>
        promises (snd (withInFlightKey k f s)) (nextPromise s) = Some (Scheduled f) \<and>
        (\<exists>s''. step (Start (nextPromise s)) (snd (withInFlightKey k f s)) = Some s'' \<and>
           invoked s'' = invoked s @ [(nextPromise s, f)])) \<and>
     (\<forall>p f. promises s p = Some (Scheduled f) \<longrightarrow>
        (\<exists>s'. step (Start p) s = Some s' \<and> promises s' p = Some (Running f) \<and>
           invoked s' = invoked s @ [(p, f)])) \<and>
     (\<forall>p f r. promises s p = Some (Running f) \<longrightarrow>
        (\<exists>k s1 s2. finalizers s p = Some k \<and> step (Settle p r) s = Some s1 \<and>
           promises s1 p = Some (Settled r) \<and> inFlightRequests s1 k = Some p \<and>
           step (Finally p) s1 = Some s2 \<and> inFlightRequests s2 k = None)) \<and>
     (\<forall>p r k. promises s p = Some (Settled r) \<and> finalizers s p = Some k \<longrightarrow>
        (\<exists>s'. step (Finally p) s = Some s' \<and> inFlightRequests s' k = None \<and>
           finalizers s' p = None))"
proof
  assume reach: "run es empty_ledger = Some s"
  have inv: "ledger_inv s" using inv_empty reach by (rule inv_run)
  have a: "\<forall>k p f. inFlightRequests s k = Some p \<longrightarrow> withInFlightKey k f s = (p, s)"
    by (simp add: withInFlightKey_def)
  have b: "\<forall>p. executing s p \<longrightarrow> (\<exists>k. finalizers s p = Some k \<and> inFlightRequests s k = Some p)"
  proof (intro allI impI)
    fix p assume "executing s p"
    then have "finalizers s p \<noteq> None" using inv by (simp add: ledger_inv_def)
    then obtain k where k: "finalizers s p = Some k" by blast
    then have "inFlightRequests s k = Some p" using inv by (simp add: ledger_inv_def)
    with k show "\<exists>k. finalizers s p = Some k \<and> inFlightRequests s k = Some p" by blast
  qed
  have c: "\<forall>p q k. executing s p \<and> executing s q \<and>
        finalizers s p = Some k \<and> finalizers s q = Some k \<longrightarrow> p = q"
  proof (intro allI impI)
    fix p q k
    assume h: "executing s p \<and> executing s q \<and> finalizers s p = Some k \<and> finalizers s q = Some k"
    show "p = q" using inv h by (intro one_execution_per_key [of s p q k]) simp_all
  qed
  have d: "\<forall>p r es' s'. promises s p = Some (Settled r) \<and> run es' s = Some s' \<longrightarrow>
        promises s' p = Some (Settled r)"
  proof (intro allI impI)
    fix p r es' s'
    assume h: "promises s p = Some (Settled r) \<and> run es' s = Some s'"
    show "promises s' p = Some (Settled r)"
      using inv h by (intro settled_run [of s p r es' s']) simp_all
  qed
  have e: "\<forall>p s'. step (Finally p) s = Some s' \<longrightarrow>
        (\<exists>k. finalizers s p = Some k \<and> inFlightRequests s k = Some p \<and>
             inFlightRequests s' k = None) \<and>
        (\<forall>es' s''. run es' s' = Some s'' \<longrightarrow> step (Finally p) s'' = None)"
  proof (intro allI impI)
    fix p s' assume h: "step (Finally p) s = Some s'"
    show "(\<exists>k. finalizers s p = Some k \<and> inFlightRequests s k = Some p \<and>
             inFlightRequests s' k = None) \<and>
        (\<forall>es' s''. run es' s' = Some s'' \<longrightarrow> step (Finally p) s'' = None)"
      using finally_once [OF inv h] by (intro conjI)
  qed
  have f: "\<forall>k p. inFlightRequests s k \<noteq> Some p \<longrightarrow> finalize k p s = s"
    by (simp add: finalize_def)
  have g: "\<forall>k f. inFlightRequests s k = None \<longrightarrow>
        fst (withInFlightKey k f s) = nextPromise s \<and>
        promises s (nextPromise s) = None \<and>
        inFlightRequests (snd (withInFlightKey k f s)) k = Some (nextPromise s) \<and>
        promises (snd (withInFlightKey k f s)) (nextPromise s) = Some (Scheduled f) \<and>
        (\<exists>s''. step (Start (nextPromise s)) (snd (withInFlightKey k f s)) = Some s'' \<and>
           invoked s'' = invoked s @ [(nextPromise s, f)])"
  proof (intro allI impI)
    fix k f assume h: "inFlightRequests s k = None"
    show "fst (withInFlightKey k f s) = nextPromise s \<and>
        promises s (nextPromise s) = None \<and>
        inFlightRequests (snd (withInFlightKey k f s)) k = Some (nextPromise s) \<and>
        promises (snd (withInFlightKey k f s)) (nextPromise s) = Some (Scheduled f) \<and>
        (\<exists>s''. step (Start (nextPromise s)) (snd (withInFlightKey k f s)) = Some s'' \<and>
           invoked s'' = invoked s @ [(nextPromise s, f)])"
      by (intro conjI fresh_call [OF inv h])
  qed
  have h: "\<forall>p f. promises s p = Some (Scheduled f) \<longrightarrow>
        (\<exists>s'. step (Start p) s = Some s' \<and> promises s' p = Some (Running f) \<and>
           invoked s' = invoked s @ [(p, f)])"
  proof (intro allI impI)
    fix p f assume "promises s p = Some (Scheduled f)"
    then show "\<exists>s'. step (Start p) s = Some s' \<and> promises s' p = Some (Running f) \<and>
           invoked s' = invoked s @ [(p, f)]"
      by (rule start_enabled)
  qed
  have i: "\<forall>p f r. promises s p = Some (Running f) \<longrightarrow>
        (\<exists>k s1 s2. finalizers s p = Some k \<and> step (Settle p r) s = Some s1 \<and>
           promises s1 p = Some (Settled r) \<and> inFlightRequests s1 k = Some p \<and>
           step (Finally p) s1 = Some s2 \<and> inFlightRequests s2 k = None)"
  proof (intro allI impI)
    fix p f r assume "promises s p = Some (Running f)"
    with inv show "\<exists>k s1 s2. finalizers s p = Some k \<and> step (Settle p r) s = Some s1 \<and>
           promises s1 p = Some (Settled r) \<and> inFlightRequests s1 k = Some p \<and>
           step (Finally p) s1 = Some s2 \<and> inFlightRequests s2 k = None"
      by (rule settle_then_finally)
  qed
  have j: "\<forall>p r k. promises s p = Some (Settled r) \<and> finalizers s p = Some k \<longrightarrow>
        (\<exists>s'. step (Finally p) s = Some s' \<and> inFlightRequests s' k = None \<and>
           finalizers s' p = None)"
  proof (intro allI impI)
    fix p r k assume a: "promises s p = Some (Settled r) \<and> finalizers s p = Some k"
    from a have 1: "promises s p = Some (Settled r)" by (elim conjE)
    from a have 2: "finalizers s p = Some k" by (elim conjE)
    from inv 1 2 show "\<exists>s'. step (Finally p) s = Some s' \<and> inFlightRequests s' k = None \<and>
           finalizers s' p = None"
      by (rule finally_enabled)
  qed
  show "(\<forall>k p f. inFlightRequests s k = Some p \<longrightarrow> withInFlightKey k f s = (p, s)) \<and>
     (\<forall>p. executing s p \<longrightarrow> (\<exists>k. finalizers s p = Some k \<and> inFlightRequests s k = Some p)) \<and>
     (\<forall>p q k. executing s p \<and> executing s q \<and>
        finalizers s p = Some k \<and> finalizers s q = Some k \<longrightarrow> p = q) \<and>
     (\<forall>p r es' s'. promises s p = Some (Settled r) \<and> run es' s = Some s' \<longrightarrow>
        promises s' p = Some (Settled r)) \<and>
     (\<forall>p s'. step (Finally p) s = Some s' \<longrightarrow>
        (\<exists>k. finalizers s p = Some k \<and> inFlightRequests s k = Some p \<and>
             inFlightRequests s' k = None) \<and>
        (\<forall>es' s''. run es' s' = Some s'' \<longrightarrow> step (Finally p) s'' = None)) \<and>
     (\<forall>k p. inFlightRequests s k \<noteq> Some p \<longrightarrow> finalize k p s = s) \<and>
     (\<forall>k f. inFlightRequests s k = None \<longrightarrow>
        fst (withInFlightKey k f s) = nextPromise s \<and>
        promises s (nextPromise s) = None \<and>
        inFlightRequests (snd (withInFlightKey k f s)) k = Some (nextPromise s) \<and>
        promises (snd (withInFlightKey k f s)) (nextPromise s) = Some (Scheduled f) \<and>
        (\<exists>s''. step (Start (nextPromise s)) (snd (withInFlightKey k f s)) = Some s'' \<and>
           invoked s'' = invoked s @ [(nextPromise s, f)])) \<and>
     (\<forall>p f. promises s p = Some (Scheduled f) \<longrightarrow>
        (\<exists>s'. step (Start p) s = Some s' \<and> promises s' p = Some (Running f) \<and>
           invoked s' = invoked s @ [(p, f)])) \<and>
     (\<forall>p f r. promises s p = Some (Running f) \<longrightarrow>
        (\<exists>k s1 s2. finalizers s p = Some k \<and> step (Settle p r) s = Some s1 \<and>
           promises s1 p = Some (Settled r) \<and> inFlightRequests s1 k = Some p \<and>
           step (Finally p) s1 = Some s2 \<and> inFlightRequests s2 k = None)) \<and>
     (\<forall>p r k. promises s p = Some (Settled r) \<and> finalizers s p = Some k \<longrightarrow>
        (\<exists>s'. step (Finally p) s = Some s' \<and> inFlightRequests s' k = None \<and>
           finalizers s' p = None))"
    by (intro conjI a b c d e f g h i j)
qed



text \<open>
  Two overlapping calls for one key, and a third after the first request has settled
  and its callback has run: the second call gets promise 0 and only factory 1 is
  invoked; the third gets a new promise with factory 3 scheduled. And the running
  request failing instead: its entry is removed all the same.
\<close>

theorem in_flight_guard_witness:
  "(\<exists>s :: (nat, nat, unit) ledger.
      run [Call ''POST /videos/abc/view'' 1, Start 0] empty_ledger = Some s \<and>
      executing s 0 \<and> invoked s = [(0, 1)] \<and>
      withInFlightKey ''POST /videos/abc/view'' 2 s = (0, s) \<and>
      (\<exists>s1 s2. step (Settle 0 (Rejected ())) s = Some s1 \<and>
         promises s1 0 = Some (Settled (Rejected ())) \<and>
         inFlightRequests s1 ''POST /videos/abc/view'' = Some 0 \<and>
         step (Finally 0) s1 = Some s2 \<and>
         inFlightRequests s2 ''POST /videos/abc/view'' = None)) \<and>
   (\<exists>s :: (nat, nat, unit) ledger.
      run [Call ''POST /videos/abc/view'' 1, Call ''POST /videos/abc/view'' 2, Start 0,
           Settle 0 (Fulfilled 42), Finally 0] empty_ledger = Some s \<and>
      promises s 0 = Some (Settled (Fulfilled 42)) \<and> invoked s = [(0, 1)] \<and>
      inFlightRequests s ''POST /videos/abc/view'' = None \<and>
      fst (withInFlightKey ''POST /videos/abc/view'' 3 s) = 1 \<and>
      promises (snd (withInFlightKey ''POST /videos/abc/view'' 3 s)) 1 = Some (Scheduled 3))"
proof -
  let ?k = "''POST /videos/abc/view''"
  have "\<exists>s :: (nat, nat, unit) ledger.
      run [Call ?k 1, Start 0] empty_ledger = Some s \<and>
      executing s 0 \<and> invoked s = [(0, 1)] \<and> inFlightRequests s ?k = Some 0 \<and>
      promises s 0 = Some (Running 1) \<and> finalizers s 0 = Some ?k"
    by (simp add: withInFlightKey_def empty_ledger_def executing_def Let_def)
  then obtain s1 :: "(nat, nat, unit) ledger" where
    s1: "run [Call ?k 1, Start 0] empty_ledger = Some s1" "executing s1 0" "invoked s1 = [(0, 1)]"
      "inFlightRequests s1 ?k = Some 0" "promises s1 0 = Some (Running 1)"
      "finalizers s1 0 = Some ?k"
    by blast
  note g1 = in_flight_guard [of "[Call ?k 1, Start 0]" s1, THEN mp, OF s1(1)]
  from g1 have "\<forall>k p f. inFlightRequests s1 k = Some p \<longrightarrow> withInFlightKey k f s1 = (p, s1)"
    by (elim conjE)
  then have w1: "withInFlightKey ?k 2 s1 = (0, s1)"
    using s1(4) by simp
  from g1 have "\<forall>p f r. promises s1 p = Some (Running f) \<longrightarrow>
        (\<exists>k t1 t2. finalizers s1 p = Some k \<and> step (Settle p r) s1 = Some t1 \<and>
           promises t1 p = Some (Settled r) \<and> inFlightRequests t1 k = Some p \<and>
           step (Finally p) t1 = Some t2 \<and> inFlightRequests t2 k = None)"
    by (elim conjE)
  then have "\<exists>k t1 t2. finalizers s1 0 = Some k \<and> step (Settle 0 (Rejected ())) s1 = Some t1 \<and>
           promises t1 0 = Some (Settled (Rejected ())) \<and> inFlightRequests t1 k = Some 0 \<and>
           step (Finally 0) t1 = Some t2 \<and> inFlightRequests t2 k = None"
    using s1(5) by blast
  then obtain k t1 t2 where t: "finalizers s1 0 = Some k"
      "step (Settle 0 (Rejected ())) s1 = Some t1"
      "promises t1 0 = Some (Settled (Rejected ()))" "inFlightRequests t1 k = Some 0"
      "step (Finally 0) t1 = Some t2" "inFlightRequests t2 k = None"
    by blast
  from t(1) s1(6) have kk: "k = ?k" by simp
  have w3: "\<exists>t1 t2. step (Settle 0 (Rejected ())) s1 = Some t1 \<and>
         promises t1 0 = Some (Settled (Rejected ())) \<and>
         inFlightRequests t1 ?k = Some 0 \<and>
         step (Finally 0) t1 = Some t2 \<and>
         inFlightRequests t2 ?k = None"
    using t(2-6) unfolding kk by (intro exI [of _ t1] exI [of _ t2] conjI)
  have "\<exists>s :: (nat, nat, unit) ledger.
      run [Call ?k 1, Call ?k 2, Start 0, Settle 0 (Fulfilled 42), Finally 0] empty_ledger = Some s \<and>
      promises s 0 = Some (Settled (Fulfilled 42)) \<and> invoked s = [(0, 1)] \<and>
      inFlightRequests s ?k = None \<and> nextPromise s = 1"
    by (simp add: withInFlightKey_def empty_ledger_def finalize_def Let_def)
  then obtain s2 :: "(nat, nat, unit) ledger" where
    s2: "run [Call ?k 1, Call ?k 2, Start 0, Settle 0 (Fulfilled 42), Finally 0] empty_ledger = Some s2"
      "promises s2 0 = Some (Settled (Fulfilled 42))" "invoked s2 = [(0, 1)]"
      "inFlightRequests s2 ?k = None" "nextPromise s2 = 1"
    by blast
  note g2 = in_flight_guard
      [of "[Call ?k 1, Call ?k 2, Start 0, Settle 0 (Fulfilled 42), Finally 0]" s2, THEN mp, OF s2(1)]
  from g2 have "\<forall>k f. inFlightRequests s2 k = None \<longrightarrow>
        fst (withInFlightKey k f s2) = nextPromise s2 \<and>
        promises s2 (nextPromise s2) = None \<and>
        inFlightRequests (snd (withInFlightKey k f s2)) k = Some (nextPromise s2) \<and>
        promises (snd (withInFlightKey k f s2)) (nextPromise s2) = Some (Scheduled f) \<and>
        (\<exists>s''. step (Start (nextPromise s2)) (snd (withInFlightKey k f s2)) = Some s'' \<and>
           invoked s'' = invoked s2 @ [(nextPromise s2, f)])"
    by (elim conjE)
  then have w2: "fst (withInFlightKey ?k 3 s2) = 1 \<and>
      promises (snd (withInFlightKey ?k 3 s2)) 1 = Some (Scheduled 3)"
    using s2(4,5) by simp
  have A: "\<exists>s :: (nat, nat, unit) ledger.
      run [Call ?k 1, Start 0] empty_ledger = Some s \<and>
      executing s 0 \<and> invoked s = [(0, 1)] \<and>
      withInFlightKey ?k 2 s = (0, s) \<and>
      (\<exists>s1 s2. step (Settle 0 (Rejected ())) s = Some s1 \<and>
         promises s1 0 = Some (Settled (Rejected ())) \<and>
         inFlightRequests s1 ?k = Some 0 \<and>
         step (Finally 0) s1 = Some s2 \<and>
         inFlightRequests s2 ?k = None)"
    by (intro exI [of _ s1] conjI s1(1,2,3) w1 w3)
  have B: "\<exists>s :: (nat, nat, unit) ledger.
      run [Call ?k 1, Call ?k 2, Start 0, Settle 0 (Fulfilled 42), Finally 0] empty_ledger = Some s \<and>
      promises s 0 = Some (Settled (Fulfilled 42)) \<and> invoked s = [(0, 1)] \<and>
      inFlightRequests s ?k = None \<and>
      fst (withInFlightKey ?k 3 s) = 1 \<and>
      promises (snd (withInFlightKey ?k 3 s)) 1 = Some (Scheduled 3)"
    using s2(1,2,3,4) w2 by (intro exI [of _ s2]) simp
  from A B show ?thesis by (rule conjI)
qed

end
